theory Spec2Isabelle
  imports Main "HOL-Library.AList"
begin

section \<open>Values and JavaScript maps\<close>

text \<open>
  The handlers, the store and the result collection carry values of the TypeScript
  type \<open>unknown\<close>. The model keeps the distinctions the code tests for:
  \<open>undefined\<close>, numbers (\<open>typeof v === 'number'\<close>) and \<open>Error\<close> instances
  (\<open>result instanceof Error\<close>, with the error's \<open>message\<close>). Numbers are
  integers here; no property below depends on rounding.

  A JavaScript \<open>Map\<close> keeps its keys distinct and in insertion order: it is an
  association list, \<open>Map.set\<close> is \<open>AList.update\<close> (replace in place, else append),
  \<open>Map.delete\<close> is \<open>AList.delete\<close>, \<open>Map.get\<close> is \<open>map_of\<close>, \<open>Map.size\<close> is
  \<open>length\<close> and \<open>Array.from(m.entries())\<close> is the list itself.
\<close>

datatype jsval =
    VUndefined
  | VNull
  | VBool bool
  | VNum int
  | VStr string
  | VError string

type_synonym ('k, 'v) jsmap = "('k \<times> 'v) list"

text \<open>
  What a function throws, or a promise rejects with, is any value. The \<open>catch\<close> blocks of
  the code read \<open>(err as Error).message\<close> of it. Reading a property of \<open>null\<close> or of
  \<open>undefined\<close> raises a \<open>TypeError\<close> itself (the text is the one of V8); any other value
  gives its \<open>message\<close>: the string of an \<open>Error\<close>, or \<open>undefined\<close> for a value without
  that property, such as a thrown string or number. So a thrown value is \<open>null\<close>,
  \<open>undefined\<close>, or a value given by its \<open>message\<close>, a string or nothing.
  In a template literal \<open>undefined\<close> prints as the text \<open>undefined\<close>.
\<close>

datatype thrown = ThrownNull | ThrownUndefined | Thrown "string option"

fun read_message :: "thrown \<Rightarrow> string + string option" where
  "read_message ThrownNull = Inl ''Cannot read properties of null (reading 'message')''"
| "read_message ThrownUndefined = Inl ''Cannot read properties of undefined (reading 'message')''"
| "read_message (Thrown m) = Inr m"

fun is_nullish :: "thrown \<Rightarrow> bool" where
  "is_nullish ThrownNull = True"
| "is_nullish ThrownUndefined = True"
| "is_nullish (Thrown m) = False"

definition template :: "string option \<Rightarrow> string" where
  "template m = (case m of None \<Rightarrow> ''undefined'' | Some text \<Rightarrow> text)"

definition has_key :: "('k, 'v) jsmap \<Rightarrow> 'k \<Rightarrow> bool" where
  "has_key m k = (map_of m k \<noteq> None)"

section \<open>ResultCollection (src/ipc/IPCHandler.ts, second document)\<close>

datatype result_status = Ok | Error

record cluster_result =
  clusterId :: int
  status :: result_status
  data :: jsval
  error :: "string option"

text \<open>An object literal without a \<open>data\<close> field reads \<open>undefined\<close> there.\<close>

definition rc_values :: "cluster_result list \<Rightarrow> jsval list" where
  "rc_values results =
     map data (filter (\<lambda>r. status r = Ok \<and> data r \<noteq> VUndefined) results)"

definition rc_errors :: "cluster_result list \<Rightarrow> (int \<times> string) list" where
  "rc_errors results =
     map (\<lambda>r. (clusterId r,
                (case error r of
                   None \<Rightarrow> ''Unknown error''
                 | Some e \<Rightarrow> if e = [] then ''Unknown error'' else e)))
         (filter (\<lambda>r. status r = Error) results)"

definition rc_allOk :: "cluster_result list \<Rightarrow> bool" where
  "rc_allOk results = list_all (\<lambda>r. status r = Ok) results"

definition rc_sum :: "cluster_result list \<Rightarrow> int" where
  "rc_sum results =
     foldl (\<lambda>acc v. acc + (case v of VNum n \<Rightarrow> n | _ \<Rightarrow> 0)) 0 (rc_values results)"

definition rc_get :: "cluster_result list \<Rightarrow> int \<Rightarrow> cluster_result option" where
  "rc_get results cid = List.find (\<lambda>r. clusterId r = cid) results"

text \<open>\<open>values()[0]\<close> and \<open>Array.find\<close> give \<open>undefined\<close> when there is nothing.\<close>

definition rc_first :: "cluster_result list \<Rightarrow> jsval" where
  "rc_first results = (case rc_values results of [] \<Rightarrow> VUndefined | v # _ \<Rightarrow> v)"

definition rc_find :: "(jsval \<Rightarrow> bool) \<Rightarrow> cluster_result list \<Rightarrow> jsval" where
  "rc_find predicate results =
     (case List.find predicate (rc_values results) of None \<Rightarrow> VUndefined | Some v \<Rightarrow> v)"

definition rc_size :: "cluster_result list \<Rightarrow> nat" where
  "rc_size results = length results"

definition rc_successCount :: "cluster_result list \<Rightarrow> nat" where
  "rc_successCount results = length (filter (\<lambda>r. status r = Ok) results)"

definition rc_errorCount :: "cluster_result list \<Rightarrow> nat" where
  "rc_errorCount results = length (filter (\<lambda>r. status r = Error) results)"

section \<open>StoreManager (src/ipc/Store.ts)\<close>

text \<open>
  The manager's state is its \<open>data\<close> map. \<open>Date.now()\<close> is a parameter \<open>now\<close>
  (milliseconds, an integer) of every operation that reads the clock, and the interval
  timer of the constructor is the operation \<open>store_cleanup\<close>, which may run at any time.
  An absent \<open>ttl\<close> or \<open>expiresAt\<close> (\<open>undefined\<close>) is \<open>None\<close>.
\<close>

record store_entry =
  entry_value :: jsval
  expiresAt :: "int option"

type_synonym store_data = "(string, store_entry) jsmap"

text \<open>The test \<open>entry.expiresAt && Date.now() > entry.expiresAt\<close>: the number 0 is falsy.\<close>

definition expired :: "store_entry \<Rightarrow> int \<Rightarrow> bool" where
  "expired entry now =
     (case expiresAt entry of None \<Rightarrow> False | Some x \<Rightarrow> x \<noteq> 0 \<and> now > x)"

definition store_get :: "store_data \<Rightarrow> int \<Rightarrow> string \<Rightarrow> jsval \<times> store_data" where
  "store_get d now key =
     (case map_of d key of
        None \<Rightarrow> (VUndefined, d)
      | Some entry \<Rightarrow>
          if expired entry now then (VUndefined, AList.delete key d)
          else (entry_value entry, d))"

definition store_set :: "store_data \<Rightarrow> int \<Rightarrow> string \<Rightarrow> jsval \<Rightarrow> int option \<Rightarrow> store_data" where
  "store_set d now key v ttl =
     AList.update key
       \<lparr>entry_value = v,
        expiresAt = (case ttl of
                       None \<Rightarrow> None
                     | Some t \<Rightarrow> if t \<noteq> 0 then Some (now + t) else None)\<rparr> d"

definition store_has :: "store_data \<Rightarrow> int \<Rightarrow> string \<Rightarrow> bool \<times> store_data" where
  "store_has d now key =
     (case map_of d key of
        None \<Rightarrow> (False, d)
      | Some entry \<Rightarrow>
          if expired entry now then (False, AList.delete key d)
          else (True, d))"

definition store_delete :: "store_data \<Rightarrow> string \<Rightarrow> bool \<times> store_data" where
  "store_delete d key = (has_key d key, AList.delete key d)"

text \<open>The sweep visits every entry of the map and deletes the expired ones from it.\<close>

definition store_cleanup :: "store_data \<Rightarrow> int \<Rightarrow> store_data" where
  "store_cleanup d now =
     foldl (\<lambda>m (key, entry). if expired entry now then AList.delete key m else m) d d"

definition store_destroy :: "store_data \<Rightarrow> store_data" where
  "store_destroy d = []"

text \<open>
  A use of the store over time: operations, each with the clock reading at which it
  runs. The readings need not increase.
\<close>

datatype store_op =
    OpGet string
  | OpHas string
  | OpSet string jsval "int option"
  | OpDelete string
  | OpCleanup
  | OpDestroy

fun store_step :: "store_data \<Rightarrow> int \<times> store_op \<Rightarrow> store_data" where
  "store_step d (now, OpGet key) = snd (store_get d now key)"
| "store_step d (now, OpHas key) = snd (store_has d now key)"
| "store_step d (now, OpSet key v ttl) = store_set d now key v ttl"
| "store_step d (now, OpDelete key) = snd (store_delete d key)"
| "store_step d (now, OpCleanup) = store_cleanup d now"
| "store_step d (now, OpDestroy) = store_destroy d"

definition store_run :: "store_data \<Rightarrow> (int \<times> store_op) list \<Rightarrow> store_data" where
  "store_run d ops = foldl store_step d ops"

text \<open>Operations that write or remove the key itself: \<open>set\<close>, \<open>delete\<close>, \<open>destroy\<close>.\<close>

fun writes :: "string \<Rightarrow> store_op \<Rightarrow> bool" where
  "writes k (OpSet key v ttl) = (key = k)"
| "writes k (OpDelete key) = (key = k)"
| "writes k OpDestroy = True"
| "writes k _ = False"

section \<open>IPCHandler (src/ipc/IPCHandler.ts)\<close>

text \<open>
  Messages are the tagged union the code switches on (\<open>message._type\<close>), each with its
  \<open>_nonce\<close> and the fields of \<open>message.data\<close> that the handler reads: a request carries
  the handler's name and its argument, a reply carries the returned data or the error
  text and the optional \<open>sourceCluster\<close>.

  A registered handler is a function from its argument to what the awaited call does:
  it returns a value (at once or through a promise), it throws or rejects with some
  value, or its promise never settles; then the \<open>await\<close> never returns and nothing after
  it in the calling function runs. An operation of the handler is taken as one step:
  what happens to the handler while an \<open>await\<close> inside it is suspended is not
  interleaved with it. The \<open>send\<close> function given to the constructor may reject, with an
  \<open>Error\<close>: it maps a message to \<open>None\<close> (sent) or to the message of the error it rejects
  with. \<open>totalClusters\<close> is the number the optional callback returns (\<open>None\<close> when there
  is none). The \<open>error\<close> field of a \<open>HandlerError\<close> is declared a string; the sender puts
  there what it reads as \<open>message\<close> of a thrown value, which can be \<open>undefined\<close>
  (\<open>None\<close>), and the receiver makes \<open>new Error(errMsg)\<close> of it, whose message is then
  the empty string.

  Three fields record what the handler does to the world: \<open>sent\<close> lists the messages
  handed to \<open>send\<close>, in order; \<open>settled\<close> lists the calls of the stored \<open>resolve\<close> and
  \<open>reject\<close> functions, each with the nonce under which the promise was stored; \<open>timers\<close>
  holds the armed timers (\<open>setTimeout\<close> adds one, \<open>clearTimeout\<close> and firing remove
  it). Nonces come from \<open>ShardingUtils.generateNonce()\<close>, which is not modelled: a
  nonce is a parameter of every operation that draws one.
\<close>

type_synonym nonce = string

datatype ipc_message =
    HandlerRequest nonce string jsval
  | HandlerRequestAll nonce string jsval
  | HandlerResponse nonce jsval "int option"
  | HandlerError nonce "string option" "int option"
  | OtherMessage nonce

datatype handler_outcome = Returns jsval | Throws thrown | NeverSettles

definition error_text :: "string option \<Rightarrow> string" where
  "error_text errMsg = (case errMsg of None \<Rightarrow> [] | Some m \<Rightarrow> m)"

datatype timer = RequestTimer nonce | RequestAllTimer nonce | StoreTimer nonce | AckTimer nonce

datatype settlement =
    Resolved nonce jsval
  | Rejected nonce string
  | ResolvedAll nonce "cluster_result list"
  | RejectedAll nonce string

datatype 'a promise_state = Pending | Fulfilled 'a | RejectedWith string

record stored_promise =
  sp_timeout :: "timer option"

record pending_all =
  results :: "(int, jsval) jsmap"
  expected :: int
  pa_timeout :: "timer option"

record ipc_state =
  handlers :: "(string, jsval \<Rightarrow> handler_outcome) jsmap"
  promises :: "(nonce, stored_promise) jsmap"
  pendingAll :: "(nonce, pending_all) jsmap"
  send :: "ipc_message \<Rightarrow> string option"
  totalClusters :: "int option"
  timers :: "timer list"
  sent :: "ipc_message list"
  settled :: "settlement list"

definition clearTimeout :: "timer option \<Rightarrow> timer list \<Rightarrow> timer list" where
  "clearTimeout t ts = (case t of None \<Rightarrow> ts | Some x \<Rightarrow> removeAll x ts)"

definition handle :: "ipc_state \<Rightarrow> string \<Rightarrow> (jsval \<Rightarrow> handler_outcome) \<Rightarrow> ipc_state" where
  "handle s name handler = s\<lparr>handlers := AList.update name handler (handlers s)\<rparr>"

definition removeHandler :: "ipc_state \<Rightarrow> string \<Rightarrow> bool \<times> ipc_state" where
  "removeHandler s name =
     (has_key (handlers s) name, s\<lparr>handlers := AList.delete name (handlers s)\<rparr>)"

text \<open>\<open>await this.send(m)\<close>: the message is handed to \<open>send\<close>; the result says whether it
  rejected.\<close>

definition do_send :: "ipc_state \<Rightarrow> ipc_message \<Rightarrow> string option \<times> ipc_state" where
  "do_send s m = (send s m, s\<lparr>sent := sent s @ [m]\<rparr>)"

text \<open>The conversion of a results map into the entries of a \<open>ResultCollection\<close>, which the
  source writes out at each of its four uses.\<close>

definition to_result :: "int \<Rightarrow> jsval \<Rightarrow> cluster_result" where
  "to_result cid result =
     (case result of
        VError m \<Rightarrow> \<lparr>clusterId = cid, status = Error, data = VUndefined, error = Some m\<rparr>
      | _ \<Rightarrow> \<lparr>clusterId = cid, status = Ok, data = result, error = None\<rparr>)"

definition to_results :: "(int, jsval) jsmap \<Rightarrow> cluster_result list" where
  "to_results rs = map (\<lambda>(cid, result). to_result cid result) rs"

text \<open>\<open>createPromise\<close>: the timer is set when \<open>timeout && timeout > 0\<close>.\<close>

definition createPromise :: "ipc_state \<Rightarrow> nonce \<Rightarrow> int option \<Rightarrow> ipc_state" where
  "createPromise s n timeout =
     (let timer = (case timeout of
                     None \<Rightarrow> None
                   | Some t \<Rightarrow> if t \<noteq> 0 \<and> t > 0 then Some (RequestTimer n) else None)
      in s\<lparr>timers := (case timer of None \<Rightarrow> timers s | Some x \<Rightarrow> timers s @ [x]),
            promises := AList.update n \<lparr>sp_timeout = timer\<rparr> (promises s)\<rparr>)"

definition request ::
  "ipc_state \<Rightarrow> nonce \<Rightarrow> string \<Rightarrow> jsval \<Rightarrow> int option \<Rightarrow> jsval promise_state \<times> ipc_state" where
  "request s n handler d timeout =
     (case do_send s (HandlerRequest n handler d) of
        (Some e, s1) \<Rightarrow> (RejectedWith e, s1)
      | (None, s1) \<Rightarrow> (Pending, createPromise s1 n timeout))"

text \<open>
  \<open>requestAll\<close>. The result is the state of the returned promise when the call has run
  as far as it can: fulfilled at once on the two early returns, rejected when \<open>send\<close>
  rejects, pending once the entry is stored in \<open>pendingAll\<close> (it is then settled through
  that entry, which \<open>settled\<close> records). The default of \<open>timeout\<close> is 30000.
  \<open>initialResults\<close> is the map the source builds first: the local handler's result,
  or the \<open>Error\<close> made from what it threw, under the key \<open>-1\<close>, if such a handler is
  registered. The local handler is awaited there, before the message is sent and before
  the timer is set. While it has not settled the call is pending with nothing sent, no
  timer and no entry; if its promise never settles that is how the call stays. When it
  throws \<open>null\<close> or \<open>undefined\<close> the \<open>catch\<close> itself throws, reading the message, and the
  call is rejected with that \<open>TypeError\<close>.
\<close>

definition initialResults ::
  "ipc_state \<Rightarrow> string \<Rightarrow> jsval \<Rightarrow> (int, jsval) jsmap promise_state" where
  "initialResults s handler d =
     (case map_of (handlers s) handler of
        None \<Rightarrow> Fulfilled []
      | Some fn \<Rightarrow>
          (case fn d of
             Returns localResult \<Rightarrow> Fulfilled (AList.update (- 1) localResult [])
           | Throws err \<Rightarrow>
               (case read_message err of
                  Inl typeError \<Rightarrow> RejectedWith typeError
                | Inr m \<Rightarrow> Fulfilled (AList.update (- 1) (VError (error_text m)) []))
           | NeverSettles \<Rightarrow> Pending))"

definition requestAll ::
  "ipc_state \<Rightarrow> nonce \<Rightarrow> string \<Rightarrow> jsval \<Rightarrow> int \<Rightarrow> cluster_result list promise_state \<times> ipc_state"
where
  "requestAll s n handler d timeout =
     (let total = (case totalClusters s of None \<Rightarrow> 0 | Some t \<Rightarrow> t) in
      if total = 0 then (Fulfilled [], s)
      else
        let remoteExpected = total - 1 in
        case initialResults s handler d of
          Pending \<Rightarrow> (Pending, s)
        | RejectedWith typeError \<Rightarrow> (RejectedWith typeError, s)
        | Fulfilled initial \<Rightarrow>
            if remoteExpected \<le> 0 then (Fulfilled (to_results initial), s)
            else
              (case do_send s (HandlerRequestAll n handler d) of
                 (Some e, s1) \<Rightarrow> (RejectedWith e, s1)
               | (None, s1) \<Rightarrow>
                   let timer = (if timeout > 0 then Some (RequestAllTimer n) else None) in
                   (Pending,
                    s1\<lparr>timers := (case timer of None \<Rightarrow> timers s1 | Some x \<Rightarrow> timers s1 @ [x]),
                       pendingAll :=
                         AList.update n
                           \<lparr>results = initial,
                            expected = remoteExpected + int (length initial),
                            pa_timeout = timer\<rparr> (pendingAll s1)\<rparr>)))"

text \<open>
  The request branch of \<open>handleIncoming\<close> (cases \<open>HandlerRequestAll\<close> and
  \<open>HandlerRequest\<close>). The \<open>try\<close> block holds both the handler's call and the send of the
  response, so the \<open>catch\<close> also runs when that send rejects. The \<open>catch\<close> reads the
  message of what was thrown while it builds the \<open>HandlerError\<close>: for \<open>null\<close> or
  \<open>undefined\<close> that read throws before \<open>send\<close> is called, nothing is sent and
  \<open>handleIncoming\<close> rejects with the \<open>TypeError\<close>. When the handler's promise never
  settles, \<open>handleIncoming\<close> stays pending and nothing is sent.
\<close>

definition handle_request ::
  "ipc_state \<Rightarrow> nonce \<Rightarrow> string \<Rightarrow> jsval \<Rightarrow> int option \<Rightarrow> unit promise_state \<times> ipc_state" where
  "handle_request s n handler d sourceCluster =
     (case map_of (handlers s) handler of
        None \<Rightarrow>
          (case do_send s
                  (HandlerError n
                     (Some (''No handler registered for '' @ [CHR 0x27] @ handler @ [CHR 0x27]))
                     sourceCluster) of
             (Some e, s1) \<Rightarrow> (RejectedWith e, s1)
           | (None, s1) \<Rightarrow> (Fulfilled (), s1))
      | Some fn \<Rightarrow>
          (case fn d of
             Returns result \<Rightarrow>
               (case do_send s (HandlerResponse n result sourceCluster) of
                  (None, s1) \<Rightarrow> (Fulfilled (), s1)
                | (Some e, s1) \<Rightarrow>
                    (case do_send s1 (HandlerError n (Some e) sourceCluster) of
                       (Some e', s2) \<Rightarrow> (RejectedWith e', s2)
                     | (None, s2) \<Rightarrow> (Fulfilled (), s2)))
           | Throws err \<Rightarrow>
               (case read_message err of
                  Inl typeError \<Rightarrow> (RejectedWith typeError, s)
                | Inr m \<Rightarrow>
                    (case do_send s (HandlerError n m sourceCluster) of
                       (Some e', s1) \<Rightarrow> (RejectedWith e', s1)
                     | (None, s1) \<Rightarrow> (Fulfilled (), s1)))
           | NeverSettles \<Rightarrow> (Pending, s)))"

text \<open>A reply for a pending \<open>requestAll\<close>: store the result under the replying cluster's
  id, and resolve once the map has the expected size.\<close>

definition deliver_all :: "ipc_state \<Rightarrow> nonce \<Rightarrow> pending_all \<Rightarrow> int \<Rightarrow> jsval \<Rightarrow> ipc_state" where
  "deliver_all s n pending src v =
     (let results' = AList.update src v (results pending) in
      if int (length results') \<ge> expected pending
      then s\<lparr>timers := clearTimeout (pa_timeout pending) (timers s),
             pendingAll := AList.delete n (pendingAll s),
             settled := settled s @ [ResolvedAll n (to_results results')]\<rparr>
      else s\<lparr>pendingAll := AList.update n (pending\<lparr>results := results'\<rparr>) (pendingAll s)\<rparr>)"

definition handleIncoming ::
  "ipc_state \<Rightarrow> ipc_message \<Rightarrow> int option \<Rightarrow> unit promise_state \<times> ipc_state" where
  "handleIncoming s message sourceCluster =
     (case message of
        HandlerRequestAll n handler d \<Rightarrow> handle_request s n handler d sourceCluster
      | HandlerRequest n handler d \<Rightarrow> handle_request s n handler d sourceCluster
      | HandlerResponse n responseData src \<Rightarrow>
          (case (map_of (pendingAll s) n, src) of
             (Some pending, Some c) \<Rightarrow> (Fulfilled (), deliver_all s n pending c responseData)
           | _ \<Rightarrow>
               (case map_of (promises s) n of
                  Some promise \<Rightarrow>
                    (Fulfilled (),
                     s\<lparr>timers := clearTimeout (sp_timeout promise) (timers s),
                       promises := AList.delete n (promises s),
                       settled := settled s @ [Resolved n responseData]\<rparr>)
                | None \<Rightarrow> (Fulfilled (), s)))
      | HandlerError n errMsg src \<Rightarrow>
          (case (map_of (pendingAll s) n, src) of
             (Some pending, Some c) \<Rightarrow>
               (Fulfilled (), deliver_all s n pending c (VError (error_text errMsg)))
           | _ \<Rightarrow>
               (case map_of (promises s) n of
                  Some promise \<Rightarrow>
                    (Fulfilled (),
                     s\<lparr>timers := clearTimeout (sp_timeout promise) (timers s),
                       promises := AList.delete n (promises s),
                       settled := settled s @ [Rejected n (error_text errMsg)]\<rparr>)
                | None \<Rightarrow> (Fulfilled (), s)))
      | OtherMessage n \<Rightarrow> (Fulfilled (), s))"

text \<open>
  A timer that is still armed fires: it leaves the armed timers and its callback runs.
  The callback of \<open>createPromise\<close> deletes the entry and rejects; the callback of
  \<open>requestAll\<close> looks the entry up and, if it is there, deletes it and resolves with the
  results received so far. A cleared timer never fires.
\<close>

definition timer_fires :: "ipc_state \<Rightarrow> timer \<Rightarrow> ipc_state" where
  "timer_fires s t =
     (if t \<notin> set (timers s) then s
      else
        let s1 = s\<lparr>timers := removeAll t (timers s)\<rparr> in
        case t of
          RequestTimer n \<Rightarrow>
            s1\<lparr>promises := AList.delete n (promises s1),
               settled := settled s1 @ [Rejected n ''IPC request timed out'']\<rparr>
        | RequestAllTimer n \<Rightarrow>
            (case map_of (pendingAll s1) n of
               None \<Rightarrow> s1
             | Some pending \<Rightarrow>
                 s1\<lparr>pendingAll := AList.delete n (pendingAll s1),
                    settled := settled s1 @ [ResolvedAll n (to_results (results pending))]\<rparr>)
        | _ \<Rightarrow> s1)"

definition clearPending :: "ipc_state \<Rightarrow> ipc_state" where
  "clearPending s =
     s\<lparr>timers :=
         foldl (\<lambda>ts (n, pending). clearTimeout (pa_timeout pending) ts)
           (foldl (\<lambda>ts (n, promise). clearTimeout (sp_timeout promise) ts) (timers s) (promises s))
           (pendingAll s),
       settled :=
         settled s
           @ map (\<lambda>(n, promise). Rejected n ''IPC handler cleared'') (promises s)
           @ map (\<lambda>(n, pending). RejectedAll n ''IPC handler cleared'') (pendingAll s),
       promises := [],
       pendingAll := []\<rparr>"

text \<open>What can happen to a handler while calls are pending: a message comes in, an armed
  timer fires, or \<open>clearPending\<close> is called.\<close>

datatype ipc_event =
    Incoming ipc_message "int option"
  | TimerFires timer
  | ClearPending

fun ipc_step :: "ipc_state \<Rightarrow> ipc_event \<Rightarrow> ipc_state" where
  "ipc_step s (Incoming message sourceCluster) = snd (handleIncoming s message sourceCluster)"
| "ipc_step s (TimerFires t) = timer_fires s t"
| "ipc_step s ClearPending = clearPending s"

definition ipc_run :: "ipc_state \<Rightarrow> ipc_event list \<Rightarrow> ipc_state" where
  "ipc_run s evs = foldl ipc_step s evs"

text \<open>
  The invariants of a handler's state: the two maps have distinct keys, as every
  \<open>Map\<close> has, and an armed timer of \<open>createPromise\<close> belongs to the entry stored
  under its nonce (every path that removes an entry clears its timer).
\<close>

definition ipc_wf :: "ipc_state \<Rightarrow> bool" where
  "ipc_wf s =
     (distinct (map fst (promises s)) \<and> distinct (map fst (pendingAll s)) \<and>
      (\<forall>n. RequestTimer n \<in> set (timers s) \<longrightarrow>
           map_of (promises s) n = Some \<lparr>sp_timeout = Some (RequestTimer n)\<rparr>))"

text \<open>How often the promise stored under a nonce by \<open>createPromise\<close>, or by \<open>requestAll\<close>,
  has been settled.\<close>

fun settles :: "nonce \<Rightarrow> settlement \<Rightarrow> bool" where
  "settles n (Resolved m v) = (m = n)"
| "settles n (Rejected m e) = (m = n)"
| "settles n _ = False"

fun settles_all :: "nonce \<Rightarrow> settlement \<Rightarrow> bool" where
  "settles_all n (ResolvedAll m rs) = (m = n)"
| "settles_all n (RejectedAll m e) = (m = n)"
| "settles_all n _ = False"

definition settle_count :: "nonce \<Rightarrow> settlement list \<Rightarrow> nat" where
  "settle_count n log = length (filter (settles n) log)"

definition settle_count_all :: "nonce \<Rightarrow> settlement list \<Rightarrow> nat" where
  "settle_count_all n log = length (filter (settles_all n) log)"

fun is_response :: "ipc_message \<Rightarrow> bool" where
  "is_response (HandlerResponse n v src) = True"
| "is_response _ = False"

fun is_error :: "ipc_message \<Rightarrow> bool" where
  "is_error (HandlerError n e src) = True"
| "is_error _ = False"

definition no_handler_text :: "string \<Rightarrow> string" where
  "no_handler_text handler = ''No handler registered for '' @ [CHR 0x27] @ handler @ [CHR 0x27]"

section \<open>StoreManager.handleMessage and StoreClient (src/ipc/Store.ts)\<close>

text \<open>
  Store messages carry the key (and, for \<open>StoreSet\<close>, the value and the optional
  \<open>ttl\<close>); a \<open>StoreResponse\<close> carries the \<open>value\<close> field of its data.
\<close>

datatype store_message =
    StoreGet nonce string
  | StoreSet nonce string jsval "int option"
  | StoreHas nonce string
  | StoreDelete nonce string
  | StoreResponse nonce jsval
  | StoreOther nonce

definition store_handleMessage ::
  "store_data \<Rightarrow> int \<Rightarrow> store_message \<Rightarrow> store_message option \<times> store_data" where
  "store_handleMessage d now message =
     (case message of
        StoreGet n key \<Rightarrow>
          (let (v, d') = store_get d now key in (Some (StoreResponse n v), d'))
      | StoreSet n key v ttl \<Rightarrow> (Some (StoreResponse n (VBool True)), store_set d now key v ttl)
      | StoreHas n key \<Rightarrow>
          (let (b, d') = store_has d now key in (Some (StoreResponse n (VBool b)), d'))
      | StoreDelete n key \<Rightarrow>
          (let (b, d') = store_delete d key in (Some (StoreResponse n (VBool b)), d'))
      | _ \<Rightarrow> (None, d))"

record store_client =
  sc_promises :: "(nonce, stored_promise) jsmap"
  sc_send :: "store_message \<Rightarrow> string option"
  sc_timers :: "timer list"
  sc_sent :: "store_message list"
  sc_settled :: "settlement list"

text \<open>The client's \<open>createPromise\<close> always sets its timer; the delay only decides when
  it fires.\<close>

definition sc_createPromise :: "store_client \<Rightarrow> nonce \<Rightarrow> int \<Rightarrow> store_client" where
  "sc_createPromise c n timeout =
     c\<lparr>sc_timers := sc_timers c @ [StoreTimer n],
       sc_promises := AList.update n \<lparr>sp_timeout = Some (StoreTimer n)\<rparr> (sc_promises c)\<rparr>"

text \<open>The four calls send their message and wait for the reply; they differ in the
  message only.\<close>

definition sc_roundtrip ::
  "store_client \<Rightarrow> nonce \<Rightarrow> store_message \<Rightarrow> int \<Rightarrow> jsval promise_state \<times> store_client" where
  "sc_roundtrip c n m timeout =
     (let c1 = c\<lparr>sc_sent := sc_sent c @ [m]\<rparr> in
      case sc_send c m of
        Some e \<Rightarrow> (RejectedWith e, c1)
      | None \<Rightarrow> (Pending, sc_createPromise c1 n timeout))"

definition sc_get :: "store_client \<Rightarrow> nonce \<Rightarrow> string \<Rightarrow> int \<Rightarrow> jsval promise_state \<times> store_client" where
  "sc_get c n key timeout = sc_roundtrip c n (StoreGet n key) timeout"

definition sc_set ::
  "store_client \<Rightarrow> nonce \<Rightarrow> string \<Rightarrow> jsval \<Rightarrow> int option \<Rightarrow> int option
     \<Rightarrow> jsval promise_state \<times> store_client" where
  "sc_set c n key v ttl timeout =
     sc_roundtrip c n (StoreSet n key v ttl) (case timeout of None \<Rightarrow> 5000 | Some t \<Rightarrow> t)"

definition sc_has :: "store_client \<Rightarrow> nonce \<Rightarrow> string \<Rightarrow> int \<Rightarrow> jsval promise_state \<times> store_client" where
  "sc_has c n key timeout = sc_roundtrip c n (StoreHas n key) timeout"

definition sc_delete :: "store_client \<Rightarrow> nonce \<Rightarrow> string \<Rightarrow> int \<Rightarrow> jsval promise_state \<times> store_client" where
  "sc_delete c n key timeout = sc_roundtrip c n (StoreDelete n key) timeout"

text \<open>\<open>handleResponse\<close> reads the message's nonce and data only.\<close>

definition handleResponse :: "store_client \<Rightarrow> nonce \<Rightarrow> jsval \<Rightarrow> store_client" where
  "handleResponse c n responseData =
     (case map_of (sc_promises c) n of
        None \<Rightarrow> c
      | Some promise \<Rightarrow>
          c\<lparr>sc_timers := clearTimeout (sp_timeout promise) (sc_timers c),
            sc_promises := AList.delete n (sc_promises c),
            sc_settled := sc_settled c @ [Resolved n responseData]\<rparr>)"

definition sc_timer_fires :: "store_client \<Rightarrow> timer \<Rightarrow> store_client" where
  "sc_timer_fires c t =
     (if t \<notin> set (sc_timers c) then c
      else
        let c1 = c\<lparr>sc_timers := removeAll t (sc_timers c)\<rparr> in
        case t of
          StoreTimer n \<Rightarrow>
            c1\<lparr>sc_promises := AList.delete n (sc_promises c1),
               sc_settled := sc_settled c1 @ [Rejected n ''Store request timed out'']\<rparr>
        | _ \<Rightarrow> c1)"

datatype sc_event = ScResponse nonce jsval | ScTimerFires timer

fun sc_step :: "store_client \<Rightarrow> sc_event \<Rightarrow> store_client" where
  "sc_step c (ScResponse n v) = handleResponse c n v"
| "sc_step c (ScTimerFires t) = sc_timer_fires c t"

definition sc_run :: "store_client \<Rightarrow> sc_event list \<Rightarrow> store_client" where
  "sc_run c evs = foldl sc_step c evs"

definition sc_wf :: "store_client \<Rightarrow> bool" where
  "sc_wf c =
     (distinct (map fst (sc_promises c)) \<and>
      (\<forall>n. StoreTimer n \<in> set (sc_timers c) \<longrightarrow>
           map_of (sc_promises c) n = Some \<lparr>sp_timeout = Some (StoreTimer n)\<rparr>))"

text \<open>The number of settlements a state can still owe a nonce, added to those it has
  made: no step of a handler or a client raises it.\<close>

definition phi :: "nonce \<Rightarrow> ipc_state \<Rightarrow> nat" where
  "phi n s = settle_count n (settled s) + (if has_key (promises s) n then 1 else 0)"

definition psi :: "nonce \<Rightarrow> ipc_state \<Rightarrow> nat" where
  "psi n s = settle_count_all n (settled s) + (if has_key (pendingAll s) n then 1 else 0)"

definition sc_phi :: "nonce \<Rightarrow> store_client \<Rightarrow> nat" where
  "sc_phi n c = settle_count n (sc_settled c) + (if has_key (sc_promises c) n then 1 else 0)"

section \<open>Example states\<close>

text \<open>A handler with two registered functions in a fleet of three clusters, whose \<open>send\<close>
  succeeds; the same with a \<open>send\<close> that rejects; one with other handlers; a store
  client.\<close>

definition ipc_example :: ipc_state where
  "ipc_example =
     \<lparr>handlers = [(''ping'', \<lambda>d. Returns (VStr ''pong'')),
                  (''boom'', \<lambda>d. Throws (Thrown (Some ''bad'')))],
      promises = [], pendingAll = [], send = (\<lambda>m. None), totalClusters = Some 3,
      timers = [], sent = [], settled = []\<rparr>"

definition ipc_example_closed :: ipc_state where
  "ipc_example_closed = ipc_example\<lparr>send := (\<lambda>m. Some ''No process to send IPC message.'')\<rparr>"

text \<open>Handlers that reject with \<open>null\<close>, that throw a string, and whose promise never
  settles.\<close>

definition ipc_example_odd :: ipc_state where
  "ipc_example_odd =
     ipc_example\<lparr>handlers :=
       [(''null'', \<lambda>d. Throws ThrownNull), (''text'', \<lambda>d. Throws (Thrown None)),
        (''hang'', \<lambda>d. NeverSettles)]\<rparr>"

definition sc_example :: store_client where
  "sc_example =
     \<lparr>sc_promises = [], sc_send = (\<lambda>m. None), sc_timers = [], sc_sent = [], sc_settled = []\<rparr>"

section \<open>A pending requestAll, as the specification words it\<close>

text \<open>
  Every timer handle stored in an entry is the one \<open>setTimeout\<close> returned when the
  entry was made: a \<open>createPromise\<close> timer in \<open>promises\<close>, a \<open>requestAll\<close> timer in
  \<open>pendingAll\<close>, each for the entry's own nonce.
\<close>

definition timers_owned :: "ipc_state \<Rightarrow> bool" where
  "timers_owned s =
     ((\<forall>(k, p) \<in> set (promises s). sp_timeout p = None \<or> sp_timeout p = Some (RequestTimer k)) \<and>
      (\<forall>(k, p) \<in> set (pendingAll s). pa_timeout p = None \<or> pa_timeout p = Some (RequestAllTimer k)))"

text \<open>The call with nonce \<open>n\<close> is waiting with entry \<open>p\<close>, its timer armed.\<close>

definition waiting :: "ipc_state \<Rightarrow> nonce \<Rightarrow> pending_all \<Rightarrow> bool" where
  "waiting s n p =
     (ipc_wf s \<and> timers_owned s \<and> map_of (pendingAll s) n = Some p \<and>
      pa_timeout p = Some (RequestAllTimer n) \<and> RequestAllTimer n \<in> set (timers s))"

text \<open>
  The specification of the broadcast, read off its words: the pending broadcast
  accumulates one entry per responding unit, keyed by the unit's id, and resolves once
  all expected entries are present or the timeout elapses, whichever is first; a failing
  unit contributes an error entry. \<open>reply_of\<close> is the entry an event contributes (a
  response or an error for this nonce that names its source), \<open>outcome_all\<close> the
  collection the call resolves with in the course of the events, if it does.
\<close>

fun reply_of :: "nonce \<Rightarrow> ipc_event \<Rightarrow> (int \<times> jsval) option" where
  "reply_of n (Incoming (HandlerResponse m v (Some c)) sc) = (if m = n then Some (c, v) else None)"
| "reply_of n (Incoming (HandlerError m e (Some c)) sc) =
     (if m = n then Some (c, VError (error_text e)) else None)"
| "reply_of n _ = None"

fun outcome_all ::
  "nonce \<Rightarrow> (int, jsval) jsmap \<Rightarrow> int \<Rightarrow> ipc_event list \<Rightarrow> cluster_result list option" where
  "outcome_all n rs ex [] = None"
| "outcome_all n rs ex (ev # evs) =
     (if ev = TimerFires (RequestAllTimer n) then Some (to_results rs)
      else
        case reply_of n ev of
          None \<Rightarrow> outcome_all n rs ex evs
        | Some (c, v) \<Rightarrow>
            let rs' = AList.update c v rs in
            if int (length rs') \<ge> ex then Some (to_results rs') else outcome_all n rs' ex evs)"

text \<open>The entries received in the course of the events, on top of those at hand.\<close>

fun received :: "nonce \<Rightarrow> (int, jsval) jsmap \<Rightarrow> ipc_event list \<Rightarrow> (int, jsval) jsmap" where
  "received n rs [] = rs"
| "received n rs (ev # evs) =
     (case reply_of n ev of
        None \<Rightarrow> received n rs evs
      | Some (c, v) \<Rightarrow> received n (AList.update c v rs) evs)"

text \<open>A handler as its constructor leaves it.\<close>

definition new_IPCHandler :: "(ipc_message \<Rightarrow> string option) \<Rightarrow> int option \<Rightarrow> ipc_state" where
  "new_IPCHandler sendFn clusterCount =
     \<lparr>handlers = [], promises = [], pendingAll = [], send = sendFn, totalClusters = clusterCount,
      timers = [], sent = [], settled = []\<rparr>"

section \<open>EventBusClient (src/ipc/EventBus.ts)\<close>

text \<open>
  Event messages carry the event's name, its data and the source cluster (and the target,
  for \<open>emitTo\<close>); an \<open>EventAck\<close> carries the acknowledging cluster. The client records
  the events it emits to its listeners (\<open>super.emit\<close>) in \<open>bus_emitted\<close> and the calls of
  a stored \<open>resolve\<close> in \<open>bus_resolved\<close>, with the nonce and the number passed.
  \<open>super.emit\<close> throws when a listener throws, and for the event \<open>error\<close> without a
  listener: \<open>bus_emit_throws\<close> tells for which emissions it does.
\<close>

datatype bus_message =
    EventEmit nonce string jsval int "int option"
  | EventEmitAndWait nonce string jsval int
  | EventForward nonce string jsval int
  | EventAck nonce int
  | BusOther nonce

record ack_pending =
  ack_expected :: int
  ack_received :: int
  ack_timeout :: "timer option"

record bus_client =
  ackPromises :: "(nonce, ack_pending) jsmap"
  bus_clusterId :: int
  bus_send :: "bus_message \<Rightarrow> string option"
  bus_timers :: "timer list"
  bus_sent :: "bus_message list"
  bus_emitted :: "(string \<times> jsval \<times> int) list"
  bus_resolved :: "(nonce \<times> int) list"
  bus_emit_throws :: "string \<Rightarrow> jsval \<Rightarrow> int \<Rightarrow> bool"

definition bus_do_send :: "bus_client \<Rightarrow> bus_message \<Rightarrow> string option \<times> bus_client" where
  "bus_do_send c m = (bus_send c m, c\<lparr>bus_sent := bus_sent c @ [m]\<rparr>)"

definition broadcast :: "bus_client \<Rightarrow> nonce \<Rightarrow> string \<Rightarrow> jsval \<Rightarrow> unit promise_state \<times> bus_client" where
  "broadcast c n event d =
     (case bus_do_send c (EventEmit n event d (bus_clusterId c) None) of
        (Some e, c1) \<Rightarrow> (RejectedWith e, c1)
      | (None, c1) \<Rightarrow> (Fulfilled (), c1))"

definition emitTo ::
  "bus_client \<Rightarrow> nonce \<Rightarrow> int \<Rightarrow> string \<Rightarrow> jsval \<Rightarrow> unit promise_state \<times> bus_client" where
  "emitTo c n target event d =
     (case bus_do_send c (EventEmit n event d (bus_clusterId c) (Some target)) of
        (Some e, c1) \<Rightarrow> (RejectedWith e, c1)
      | (None, c1) \<Rightarrow> (Fulfilled (), c1))"

text \<open>
  \<open>broadcastAndWait\<close>: \<open>expectedClusters\<close> may be absent (\<open>None\<close>); the default of
  \<open>timeout\<close> is 10000. The timer is always set when the call waits.
\<close>

definition broadcastAndWait ::
  "bus_client \<Rightarrow> nonce \<Rightarrow> string \<Rightarrow> jsval \<Rightarrow> int \<Rightarrow> int option \<Rightarrow> int promise_state \<times> bus_client"
where
  "broadcastAndWait c n event d timeout expectedClusters =
     (let expected = (case expectedClusters of None \<Rightarrow> 0 | Some e \<Rightarrow> e) in
      case bus_do_send c (EventEmitAndWait n event d (bus_clusterId c)) of
        (Some e, c1) \<Rightarrow> (RejectedWith e, c1)
      | (None, c1) \<Rightarrow>
          if expected \<le> 0 then (Fulfilled 0, c1)
          else
            (Pending,
             c1\<lparr>bus_timers := bus_timers c1 @ [AckTimer n],
                ackPromises :=
                  AList.update n
                    \<lparr>ack_expected = expected, ack_received = 0, ack_timeout = Some (AckTimer n)\<rparr>
                    (ackPromises c1)\<rparr>))"

text \<open>The acknowledgement a receiver sends is not awaited and its failure is swallowed
  (\<open>.catch(() => {})\<close>). When \<open>super.emit\<close> throws, the exception leaves
  \<open>handleIncoming\<close> there: no acknowledgement is sent.\<close>

definition bus_handleIncoming :: "bus_client \<Rightarrow> bus_message \<Rightarrow> bus_client" where
  "bus_handleIncoming c message =
     (case message of
        EventForward n event d sourceCluster \<Rightarrow>
          c\<lparr>bus_emitted := bus_emitted c @ [(event, d, sourceCluster)]\<rparr>
      | EventEmitAndWait n event d sourceCluster \<Rightarrow>
          if bus_emit_throws c event d sourceCluster
          then c\<lparr>bus_emitted := bus_emitted c @ [(event, d, sourceCluster)]\<rparr>
          else snd (bus_do_send (c\<lparr>bus_emitted := bus_emitted c @ [(event, d, sourceCluster)]\<rparr>)
                      (EventAck n (bus_clusterId c)))
      | EventAck n sourceCluster \<Rightarrow>
          (case map_of (ackPromises c) n of
             None \<Rightarrow> c
           | Some pending \<Rightarrow>
               let r = ack_received pending + 1 in
               if r \<ge> ack_expected pending
               then c\<lparr>bus_timers := clearTimeout (ack_timeout pending) (bus_timers c),
                      ackPromises := AList.delete n (ackPromises c),
                      bus_resolved := bus_resolved c @ [(n, r)]\<rparr>
               else c\<lparr>ackPromises :=
                        AList.update n (pending\<lparr>ack_received := r\<rparr>) (ackPromises c)\<rparr>)
      | _ \<Rightarrow> c)"

text \<open>The timer's callback reads the entry, deletes it and resolves with the number of
  acknowledgements received (\<open>pending?.received ?? 0\<close>).\<close>

definition bus_timer_fires :: "bus_client \<Rightarrow> timer \<Rightarrow> bus_client" where
  "bus_timer_fires c t =
     (if t \<notin> set (bus_timers c) then c
      else
        let c1 = c\<lparr>bus_timers := removeAll t (bus_timers c)\<rparr> in
        case t of
          AckTimer n \<Rightarrow>
            c1\<lparr>ackPromises := AList.delete n (ackPromises c1),
               bus_resolved :=
                 bus_resolved c1
                   @ [(n, case map_of (ackPromises c1) n of
                            None \<Rightarrow> 0 | Some pending \<Rightarrow> ack_received pending)]\<rparr>
        | _ \<Rightarrow> c1)"

datatype bus_event = BusIncoming bus_message | BusTimerFires timer

fun bus_step :: "bus_client \<Rightarrow> bus_event \<Rightarrow> bus_client" where
  "bus_step c (BusIncoming m) = bus_handleIncoming c m"
| "bus_step c (BusTimerFires t) = bus_timer_fires c t"

definition bus_run :: "bus_client \<Rightarrow> bus_event list \<Rightarrow> bus_client" where
  "bus_run c evs = foldl bus_step c evs"

text \<open>Every entry's timer handle is the one set for its own nonce.\<close>

definition bus_owned :: "bus_client \<Rightarrow> bool" where
  "bus_owned c =
     (\<forall>(k, p) \<in> set (ackPromises c). ack_timeout p = None \<or> ack_timeout p = Some (AckTimer k))"

definition bus_waiting :: "bus_client \<Rightarrow> nonce \<Rightarrow> ack_pending \<Rightarrow> bool" where
  "bus_waiting c n p =
     (bus_owned c \<and> map_of (ackPromises c) n = Some p \<and>
      ack_timeout p = Some (AckTimer n) \<and> AckTimer n \<in> set (bus_timers c))"

definition bus_finished :: "bus_client \<Rightarrow> nonce \<Rightarrow> bool" where
  "bus_finished c n = (map_of (ackPromises c) n = None \<and> AckTimer n \<notin> set (bus_timers c))"

text \<open>
  The specification of \<open>broadcastAndWait\<close>, read off its words: the call resolves with
  however many acknowledgements arrived once the expected count is reached or the timeout
  elapses. \<open>ack_outcome n ex k evs\<close> is the number the call resolves with in the course of
  the events \<open>evs\<close>, if it does, when \<open>k\<close> acknowledgements have arrived before.
\<close>

fun is_ack :: "nonce \<Rightarrow> bus_event \<Rightarrow> bool" where
  "is_ack n (BusIncoming (EventAck m src)) = (m = n)"
| "is_ack n _ = False"

fun ack_outcome :: "nonce \<Rightarrow> int \<Rightarrow> int \<Rightarrow> bus_event list \<Rightarrow> int option" where
  "ack_outcome n ex k [] = None"
| "ack_outcome n ex k (ev # evs) =
     (if ev = BusTimerFires (AckTimer n) then Some k
      else if is_ack n ev then (if k + 1 \<ge> ex then Some (k + 1) else ack_outcome n ex (k + 1) evs)
      else ack_outcome n ex k evs)"

definition resolved_for :: "nonce \<Rightarrow> (nonce \<times> int) list \<Rightarrow> (nonce \<times> int) list" where
  "resolved_for n log = filter (\<lambda>r. fst r = n) log"

definition bus_example :: bus_client where
  "bus_example =
     \<lparr>ackPromises = [], bus_clusterId = 0, bus_send = (\<lambda>m. None), bus_timers = [],
      bus_sent = [], bus_emitted = [], bus_resolved = [],
      bus_emit_throws = (\<lambda>event d src. event = ''error'')\<rparr>"

definition bus_example_closed :: bus_client where
  "bus_example_closed = bus_example\<lparr>bus_send := (\<lambda>m. Some ''No process to send IPC message.'')\<rparr>"

text \<open>The acknowledgements for a nonce among the events.\<close>

fun count_acks :: "nonce \<Rightarrow> bus_event list \<Rightarrow> int" where
  "count_acks n [] = 0"
| "count_acks n (ev # evs) = (if is_ack n ev then 1 else 0) + count_acks n evs"

section \<open>ClusterHandler.handleMessage, case ClientReady (manager side)\<close>














section \<open>ProcessGuard (src/plugins/processGuard.ts)\<close>

text \<open>
  A cleanup task is a function returning a promise, raced against a timer of its own.
  Time is not modelled: a task is given by how its race ends. It completes before the
  timer, its promise rejects before the timer with some value, the call itself throws
  some value (before any timer is set, and without any \<open>await\<close>), or the timer wins and
  rejects with \<open><name> timeout\<close>. A managed cluster has a child process, a worker thread
  or no process. The shutdown is the trace of what it does, in order; the formatted log
  texts are constructors that keep their arguments. The calls of the manager's logger are
  taken not to throw; a listener of \<open>shutdown:complete\<close> may throw, which is the parameter
  \<open>listener\<close> of \<open>executeShutdown\<close> (the value thrown, if so).

  \<open>forceExitTimeout\<close> is the timer that the handler of \<open>SIGTERM\<close> and \<open>SIGINT\<close>, or the
  handler of \<open>uncaughtException\<close>, sets before it calls \<open>initiate\<close>, with its delay
  \<open>forceExitMs\<close>; it is \<open>null\<close> when \<open>initiate\<close> is called directly. Its callback can
  run only while \<open>executeShutdown\<close> is suspended, which is at the \<open>await\<close> of a task's
  race. The parameter \<open>forced\<close> of \<open>executeShutdown\<close> tells whether and where it does:
  \<open>Some k\<close> when the timer fires while the race of the task at position \<open>k\<close> (from 0) is
  awaited, \<open>None\<close> when it does not fire before the shutdown has ended. It cannot fire at
  a task whose call throws, as nothing is awaited there.
\<close>

datatype race_result = Completes | Rejects thrown | ThrowsSync thrown | TimesOut

record cleanup_task =
  race :: race_result
  task_timeout :: int

datatype child_handle = ChildProc | WorkerThread

datatype force_exit = OnSignal int | OnUncaughtException int

datatype guard_event =
    DebugStep string
  | TaskCalled string
  | DebugCompleted string
  | DebugFailed string string
  | KillSigterm int
  | Terminate int
  | EmitShutdownComplete
  | InfoShutdownCompleted
  | DebugShutdownError string
  | ClearForceExit
  | RemovePidFile
  | ErrorForceExit int
  | ShutdownRejects string
  | Exit int

record guard =
  cleanupTasks :: "(string, cleanup_task) jsmap"
  children :: "(int, child_handle option) jsmap"
  forceExitTimeout :: "force_exit option"

definition addCleanupTask :: "guard \<Rightarrow> string \<Rightarrow> race_result \<Rightarrow> int \<Rightarrow> guard" where
  "addCleanupTask g name taskFn timeout =
     g\<lparr>cleanupTasks := AList.update name \<lparr>race = taskFn, task_timeout = timeout\<rparr> (cleanupTasks g)\<rparr>"

definition removeCleanupTask :: "guard \<Rightarrow> string \<Rightarrow> guard" where
  "removeCleanupTask g name = g\<lparr>cleanupTasks := AList.delete name (cleanupTasks g)\<rparr>"

text \<open>\<open>killAllChildren\<close>: every cluster with a process is signalled or terminated; an
  exception of the call is swallowed.\<close>

fun killAllChildren :: "(int, child_handle option) jsmap \<Rightarrow> guard_event list" where
  "killAllChildren [] = []"
| "killAllChildren ((cid, None) # cs) = killAllChildren cs"
| "killAllChildren ((cid, Some ChildProc) # cs) = KillSigterm cid # killAllChildren cs"
| "killAllChildren ((cid, Some WorkerThread) # cs) = Terminate cid # killAllChildren cs"

text \<open>
  One turn of the loop after the call of the task: the inner \<open>try\<close> holds the call and
  the race, the \<open>catch\<close> logs the error's message. Reading the message of \<open>null\<close> or
  \<open>undefined\<close> throws inside the \<open>catch\<close>: then nothing is logged and the \<open>TypeError\<close>
  (its text is the second component) leaves the loop.
\<close>

definition catch_task :: "string \<Rightarrow> thrown \<Rightarrow> guard_event list \<times> string option" where
  "catch_task name err =
     (case read_message err of
        Inl typeError \<Rightarrow> ([], Some typeError)
      | Inr m \<Rightarrow> ([DebugFailed name (template m)], None))"

definition settle_task :: "string \<Rightarrow> race_result \<Rightarrow> guard_event list \<times> string option" where
  "settle_task name r =
     (case r of
        Completes \<Rightarrow> ([DebugCompleted name], None)
      | Rejects err \<Rightarrow> catch_task name err
      | ThrowsSync err \<Rightarrow> catch_task name err
      | TimesOut \<Rightarrow> ([DebugFailed name (name @ '' timeout'')], None))"

fun awaited :: "race_result \<Rightarrow> bool" where
  "awaited (ThrowsSync err) = False"
| "awaited _ = True"

fun next_task :: "nat option \<Rightarrow> nat option" where
  "next_task None = None"
| "next_task (Some 0) = None"
| "next_task (Some (Suc k)) = Some k"

text \<open>The loop over the tasks ends when all tasks are through, when a \<open>catch\<close> has
  thrown, or when the force-exit timer fires during an \<open>await\<close>.\<close>

datatype loop_end = LoopDone | LoopThrows string | LoopForced

fun run_tasks :: "nat option \<Rightarrow> (string \<times> cleanup_task) list \<Rightarrow> guard_event list \<times> loop_end" where
  "run_tasks forced [] = ([], LoopDone)"
| "run_tasks forced ((name, t) # tasks) =
     (if forced = Some 0 \<and> awaited (race t) then ([DebugStep name, TaskCalled name], LoopForced)
      else
        case settle_task name (race t) of
          (evs, Some typeError) \<Rightarrow> ([DebugStep name, TaskCalled name] @ evs, LoopThrows typeError)
        | (evs, None) \<Rightarrow>
            (case run_tasks (next_task forced) tasks of
               (rest, ending) \<Rightarrow> ([DebugStep name, TaskCalled name] @ evs @ rest, ending)))"

definition cleanup_guard :: "guard \<Rightarrow> guard_event list" where
  "cleanup_guard g = [RemovePidFile]"

definition clearForce :: "guard \<Rightarrow> guard_event list" where
  "clearForce g = (if forceExitTimeout g \<noteq> None then [ClearForceExit] else [])"

text \<open>The callback of the force-exit timer: the one set on a signal logs, terminates the
  children and exits; the one set on an uncaught exception only exits.\<close>

definition force_exit_fires :: "guard \<Rightarrow> guard_event list" where
  "force_exit_fires g =
     (case forceExitTimeout g of
        None \<Rightarrow> []
      | Some (OnSignal forceExitMs) \<Rightarrow>
          [ErrorForceExit forceExitMs] @ killAllChildren (children g) @ [Exit 1]
      | Some (OnUncaughtException forceExitMs) \<Rightarrow> [Exit 1])"

text \<open>
  The outer \<open>catch\<close>. It reads the message of what was thrown as well: for \<open>null\<close> or
  \<open>undefined\<close> it throws itself, so that the promise of \<open>executeShutdown\<close> rejects with
  nothing terminated and no exit; the force-exit timer, if set, is then still running and
  fires in the end.
\<close>

definition catch_shutdown :: "guard \<Rightarrow> thrown \<Rightarrow> guard_event list" where
  "catch_shutdown g err =
     (case read_message err of
        Inl typeError \<Rightarrow> [ShutdownRejects typeError] @ force_exit_fires g
      | Inr m \<Rightarrow>
          [DebugShutdownError (template m)] @ killAllChildren (children g) @ clearForce g
            @ cleanup_guard g @ [Exit 1])"

definition executeShutdown :: "guard \<Rightarrow> nat option \<Rightarrow> thrown option \<Rightarrow> guard_event list" where
  "executeShutdown g forced listener =
     (case run_tasks (if forceExitTimeout g = None then None else forced) (cleanupTasks g) of
        (evs, LoopForced) \<Rightarrow> evs @ force_exit_fires g
      | (evs, LoopThrows typeError) \<Rightarrow> evs @ catch_shutdown g (Thrown (Some typeError))
      | (evs, LoopDone) \<Rightarrow>
          evs @ killAllChildren (children g) @ [EmitShutdownComplete]
            @ (case listener of
                 None \<Rightarrow> [InfoShutdownCompleted] @ clearForce g @ cleanup_guard g @ [Exit 0]
               | Some err \<Rightarrow> catch_shutdown g err))"

fun is_call :: "guard_event \<Rightarrow> bool" where
  "is_call (TaskCalled name) = True"
| "is_call _ = False"

fun is_kill :: "guard_event \<Rightarrow> bool" where
  "is_kill (KillSigterm cid) = True"
| "is_kill (Terminate cid) = True"
| "is_kill _ = False"






text \<open>Three tasks, the second of which rejects with \<open>null\<close>.\<close>

definition guard_example_null :: guard where
  "guard_example_null =
     addCleanupTask
       (addCleanupTask
          (addCleanupTask
             \<lparr>cleanupTasks = [], children = [(0, Some ChildProc), (1, Some WorkerThread), (2, None)],
              forceExitTimeout = None\<rparr>
             ''A'' Completes 30000)
          ''B'' (Rejects ThrownNull) 30000)
       ''C'' Completes 30000"

section \<open>Properties of JavaScript maps\<close>

lemma has_key_delete: "has_key (AList.delete k m) k' = (k' \<noteq> k \<and> has_key m k')"
  by (simp add: has_key_def delete_conv')

lemma has_key_update: "has_key (AList.update k v m) k' = (k' = k \<or> has_key m k')"
  by (simp add: has_key_def update_conv')

lemma has_key_Nil: "has_key [] k = False"
  by (simp add: has_key_def)

lemma in_update_cases:
  "(k, q) \<in> set (AList.update n p ps) \<Longrightarrow> (k, q) = (n, p) \<or> (k, q) \<in> set ps"
  by (induction ps) (auto split: if_splits)

lemma in_delete_cases: "(k, q) \<in> set (AList.delete n ps) \<Longrightarrow> (k, q) \<in> set ps"
  by (simp add: AList.delete_eq)


section \<open>Properties of ResultCollection\<close>

lemma rc_values_append: "rc_values (xs @ ys) = rc_values xs @ rc_values ys"
  by (simp add: rc_values_def)

lemma rc_values_skip:
  "status r = Ok \<Longrightarrow> data r = VUndefined \<Longrightarrow> rc_values (xs @ r # ys) = rc_values (xs @ ys)"
  by (simp add: rc_values_def)

text \<open>
  Claim C9. An entry with status \<open>ok\<close> whose data is \<open>undefined\<close>, wherever it stands
  in a collection, adds nothing to \<open>values()\<close>, \<open>first()\<close>, \<open>find()\<close> and \<open>sum()\<close>, yet
  it adds one to \<open>successCount\<close> and counts as ok for \<open>allOk()\<close>: the collection is all
  ok exactly when the entries before it and after it are, and the collection that holds
  nothing else is all ok. So \<open>successCount\<close> can exceed the number of values, and
  \<open>first()\<close> can be \<open>undefined\<close> while \<open>successCount\<close> is positive: the collection
  holding just that entry has no value, \<open>successCount\<close> 1 and \<open>first()\<close> undefined.
\<close>

theorem C9_ok_undefined_entry:
  "status r = Ok \<Longrightarrow> data r = VUndefined \<Longrightarrow>
     rc_values (xs @ r # ys) = rc_values (xs @ ys)
   \<and> rc_first (xs @ r # ys) = rc_first (xs @ ys)
   \<and> rc_find p (xs @ r # ys) = rc_find p (xs @ ys)
   \<and> rc_sum (xs @ r # ys) = rc_sum (xs @ ys)
   \<and> rc_successCount (xs @ r # ys) = rc_successCount (xs @ ys) + 1
   \<and> rc_allOk (xs @ r # ys) = rc_allOk (xs @ ys)
   \<and> length (rc_values [r]) < rc_successCount [r]
   \<and> rc_first [r] = VUndefined \<and> 0 < rc_successCount [r]
   \<and> rc_allOk [r]
   \<and> rc_allOk (xs @ r # ys) = (rc_allOk xs \<and> rc_allOk ys)
   \<and> rc_values [r] = [] \<and> rc_successCount [r] = 1
   \<and> rc_successCount (xs @ r # ys) = rc_successCount xs + 1 + rc_successCount ys
   \<and> length (rc_values (xs @ r # ys)) < rc_successCount (xs @ r # ys)"
proof -
  assume r: "status r = Ok" "data r = VUndefined"
  have le: "length (rc_values zs) \<le> rc_successCount zs" for zs
  proof -
    have "length (rc_values zs)
        = length (filter (\<lambda>r. data r \<noteq> VUndefined) (filter (\<lambda>r. status r = Ok) zs))"
      by (simp add: rc_values_def conj_commute)
    also have "\<dots> \<le> rc_successCount zs"
      unfolding rc_successCount_def by (rule length_filter_le)
    finally show ?thesis .
  qed
  have a: "rc_values (xs @ r # ys) = rc_values (xs @ ys)"
    using r by (simp add: rc_values_def)
  have b: "rc_successCount (xs @ r # ys) = rc_successCount (xs @ ys) + 1"
    using r by (simp add: rc_successCount_def)
  have c: "length (rc_values (xs @ r # ys)) < rc_successCount (xs @ r # ys)"
    using le [of "xs @ ys"] by (simp add: a b)
  have d: "rc_first (xs @ r # ys) = rc_first (xs @ ys)"
          "rc_find p (xs @ r # ys) = rc_find p (xs @ ys)"
          "rc_sum (xs @ r # ys) = rc_sum (xs @ ys)"
    by (simp_all add: rc_first_def rc_find_def rc_sum_def a)
  have e: "rc_allOk (xs @ r # ys) = rc_allOk (xs @ ys)"
          "rc_allOk (xs @ r # ys) = (rc_allOk xs \<and> rc_allOk ys)"
          "rc_allOk [r]"
    using r by (simp_all add: rc_allOk_def)
  have f: "rc_values [r] = []" "rc_successCount [r] = 1" "rc_first [r] = VUndefined"
          "rc_successCount (xs @ r # ys) = rc_successCount xs + 1 + rc_successCount ys"
    using r by (simp_all add: rc_values_def rc_successCount_def rc_first_def)
  show ?thesis using a b c d e f by simp
qed

theorem C9_ok_undefined_entry_witness:
  "rc_values
     [\<lparr>clusterId = 0, status = Ok, data = VNum 4, error = None\<rparr>,
      \<lparr>clusterId = 1, status = Ok, data = VUndefined, error = None\<rparr>,
      \<lparr>clusterId = 2, status = Ok, data = VNum 3, error = None\<rparr>] = [VNum 4, VNum 3]
   \<and> rc_sum
     [\<lparr>clusterId = 0, status = Ok, data = VNum 4, error = None\<rparr>,
      \<lparr>clusterId = 1, status = Ok, data = VUndefined, error = None\<rparr>,
      \<lparr>clusterId = 2, status = Ok, data = VNum 3, error = None\<rparr>] = 7
   \<and> rc_successCount
     [\<lparr>clusterId = 0, status = Ok, data = VNum 4, error = None\<rparr>,
      \<lparr>clusterId = 1, status = Ok, data = VUndefined, error = None\<rparr>,
      \<lparr>clusterId = 2, status = Ok, data = VNum 3, error = None\<rparr>] = 3
   \<and> rc_allOk
     [\<lparr>clusterId = 0, status = Ok, data = VNum 4, error = None\<rparr>,
      \<lparr>clusterId = 1, status = Ok, data = VUndefined, error = None\<rparr>,
      \<lparr>clusterId = 2, status = Ok, data = VNum 3, error = None\<rparr>]
   \<and> rc_first [\<lparr>clusterId = 1, status = Ok, data = VUndefined, error = None\<rparr>] = VUndefined
   \<and> rc_successCount [\<lparr>clusterId = 1, status = Ok, data = VUndefined, error = None\<rparr>] = 1
   \<and> rc_allOk [\<lparr>clusterId = 1, status = Ok, data = VUndefined, error = None\<rparr>]"
  using C9_ok_undefined_entry
    [of "\<lparr>clusterId = 1, status = Ok, data = VUndefined, error = None\<rparr>"
        "[\<lparr>clusterId = 0, status = Ok, data = VNum 4, error = None\<rparr>]"
        "[\<lparr>clusterId = 2, status = Ok, data = VNum 3, error = None\<rparr>]"]
  by (simp add: rc_values_def rc_sum_def rc_successCount_def rc_first_def rc_allOk_def)

section \<open>Properties of the store\<close>

lemma cleanup_fold_map_of:
  "map_of (foldl (\<lambda>m (key, entry). if expired entry now then AList.delete key m else m) m xs) k
     = (if \<exists>e. (k, e) \<in> set xs \<and> expired e now then None else map_of m k)"
proof (induction xs arbitrary: m)
  case Nil
  then show ?case by simp
next
  case (Cons x xs)
  obtain key entry where x: "x = (key, entry)" by (cases x)
  show ?case
    unfolding x using Cons.IH by (auto simp: delete_conv')
qed

lemma cleanup_fold_distinct:
  "distinct (map fst m) \<Longrightarrow>
   distinct (map fst (foldl (\<lambda>m (key, entry). if expired entry now then AList.delete key m else m) m xs))"
  by (induction xs arbitrary: m) (auto simp: distinct_delete split: prod.splits)

lemma store_cleanup_map_of:
  "distinct (map fst d) \<Longrightarrow>
   map_of (store_cleanup d now) k =
     (case map_of d k of None \<Rightarrow> None | Some e \<Rightarrow> if expired e now then None else Some e)"
  unfolding store_cleanup_def cleanup_fold_map_of
  by (auto split: option.splits dest: eq_key_imp_eq_value)

lemma store_cleanup_distinct: "distinct (map fst d) \<Longrightarrow> distinct (map fst (store_cleanup d now))"
  unfolding store_cleanup_def by (rule cleanup_fold_distinct)

lemma store_step_distinct: "distinct (map fst d) \<Longrightarrow> distinct (map fst (store_step d tp))"
  by (cases "(d, tp)" rule: store_step.cases)
     (auto simp: store_get_def store_has_def store_set_def store_delete_def store_destroy_def
        store_cleanup_distinct distinct_update distinct_delete split: option.splits)

lemma store_step_other:
  "distinct (map fst d) \<Longrightarrow> \<not> writes k (snd tp) \<Longrightarrow> map_of d k = Some e \<Longrightarrow> \<not> expired e (fst tp) 
   \<Longrightarrow> map_of (store_step d tp) k = Some e"
  by (cases "(d, tp)" rule: store_step.cases)
     (auto simp: store_get_def store_has_def store_set_def store_delete_def 
        store_cleanup_map_of update_conv' delete_conv' split: option.splits dest: eq_key_imp_eq_value)

lemma store_step_gone:
  "distinct (map fst d) \<Longrightarrow> \<not> writes k (snd tp) \<Longrightarrow> map_of d k = None 
   \<Longrightarrow> map_of (store_step d tp) k = None"
  by (cases "(d, tp)" rule: store_step.cases)
     (auto simp: store_get_def store_has_def store_set_def store_delete_def 
        store_cleanup_map_of update_conv' delete_conv' split: option.splits dest: eq_key_imp_eq_value)

lemma store_step_same_or_gone:
  "distinct (map fst d) \<Longrightarrow> \<not> writes k (snd tp) \<Longrightarrow> map_of d k = Some e 
   \<Longrightarrow> map_of (store_step d tp) k = Some e \<or> map_of (store_step d tp) k = None"
  by (cases "(d, tp)" rule: store_step.cases)
     (auto simp: store_get_def store_has_def store_set_def store_delete_def 
        store_cleanup_map_of update_conv' delete_conv' split: option.splits dest: eq_key_imp_eq_value)


lemma store_run_distinct: "distinct (map fst d) \<Longrightarrow> distinct (map fst (store_run d ops))"
  unfolding store_run_def by (induction ops arbitrary: d) (auto simp: store_step_distinct)

lemma store_run_permanent:
  "distinct (map fst d) \<Longrightarrow> map_of d k = Some e \<Longrightarrow> expiresAt e = None \<Longrightarrow>
   \<forall>tp \<in> set ops. \<not> writes k (snd tp) \<Longrightarrow> map_of (store_run d ops) k = Some e"
  unfolding store_run_def
proof (induction ops arbitrary: d)
  case Nil
  then show ?case by simp
next
  case (Cons tp ops)
  have "\<not> expired e (fst tp)" using Cons.prems(3) by (simp add: expired_def)
  then have "map_of (store_step d tp) k = Some e"
    using Cons.prems by (intro store_step_other) auto
  moreover have "distinct (map fst (store_step d tp))"
    using Cons.prems(1) by (rule store_step_distinct)
  ultimately show ?case using Cons.IH Cons.prems by simp
qed

lemma store_run_same_or_gone:
  "distinct (map fst d) \<Longrightarrow> map_of d k = Some e \<or> map_of d k = None \<Longrightarrow>
   \<forall>tp \<in> set ops. \<not> writes k (snd tp) \<Longrightarrow>
   map_of (store_run d ops) k = Some e \<or> map_of (store_run d ops) k = None"
  unfolding store_run_def
proof (induction ops arbitrary: d)
  case Nil
  then show ?case by simp
next
  case (Cons tp ops)
  have "map_of (store_step d tp) k = Some e \<or> map_of (store_step d tp) k = None"
    using Cons.prems store_step_same_or_gone [of d k tp e] store_step_gone [of d k tp] by auto
  moreover have "distinct (map fst (store_step d tp))"
    using Cons.prems(1) by (rule store_step_distinct)
  ultimately show ?case using Cons.IH Cons.prems by simp
qed

text \<open>
  Claim C10. \<open>set(k, v, 0)\<close> stores the entry without an expiry instant. After any
  further use of the store that neither sets nor deletes \<open>k\<close> nor destroys the store
  (reads of any key, writes of other keys and sweeps, at any clock readings), the entry
  is still there unchanged: at every clock reading \<open>get(k)\<close> returns \<open>v\<close>, \<open>has(k)\<close>
  returns true, both leave the map as it is, and a sweep keeps the entry. Only
  \<open>delete(k)\<close> makes the reads answer \<open>undefined\<close> and false.
\<close>

theorem C10_ttl_zero_never_expires:
  "distinct (map fst d) \<Longrightarrow> (\<forall>tp \<in> set ops. \<not> writes k (snd tp)) \<Longrightarrow>
   d' = store_run (store_set d now0 k v (Some 0)) ops \<Longrightarrow>
     map_of d' k = Some \<lparr>entry_value = v, expiresAt = None\<rparr>
   \<and> store_get d' now k = (v, d') \<and> store_has d' now k = (True, d')
   \<and> map_of (store_cleanup d' now) k = map_of d' k
   \<and> fst (store_get (snd (store_delete d' k)) now k) = VUndefined
   \<and> \<not> fst (store_has (snd (store_delete d' k)) now k)"
proof -
  assume d: "distinct (map fst d)" and ops: "\<forall>tp \<in> set ops. \<not> writes k (snd tp)"
    and d': "d' = store_run (store_set d now0 k v (Some 0)) ops"
  let ?e = "\<lparr>entry_value = v, expiresAt = None\<rparr>"
  let ?d1 = "store_set d now0 k v (Some 0)"
  have d1: "distinct (map fst ?d1)" using d by (simp add: store_set_def distinct_update)
  have "map_of ?d1 k = Some ?e" by (simp add: store_set_def update_conv')
  then have m: "map_of d' k = Some ?e"
    unfolding d' using d1 ops by (intro store_run_permanent) auto
  have dd: "distinct (map fst d')" unfolding d' using d1 by (rule store_run_distinct)
  show ?thesis
    using m dd
    by (simp add: store_get_def store_has_def expired_def store_cleanup_map_of store_delete_def
        delete_conv')
qed

text \<open>
  Claim C6. Let \<open>set(k, v, ttl)\<close> run with a positive \<open>ttl\<close> at the clock reading
  \<open>now0\<close> (\<open>Date.now()\<close> counts milliseconds since 1970, so \<open>0 \<le> now0\<close>). At every
  reading up to the expiry instant \<open>now0 + ttl\<close>, so immediately after the call,
  \<open>get(k)\<close> returns \<open>v\<close> and \<open>has(k)\<close> true. At every reading strictly after it,
  \<open>get(k)\<close> returns \<open>undefined\<close> and \<open>has(k)\<close> false, the read itself deletes the
  entry, and so does a sweep; this stays so after any use of the store in between that
  does not write \<open>k\<close>, without any \<open>delete\<close>. A sweep removes every entry whose
  expiry instant has passed (an instant is a number other than 0, which is what a
  positive \<open>ttl\<close> gives).
\<close>

theorem C6_ttl_expiry:
  "0 \<le> now0 \<Longrightarrow> 0 < ttl \<Longrightarrow> distinct (map fst d) \<Longrightarrow> d1 = store_set d now0 k v (Some ttl) \<Longrightarrow>
     (\<forall>t. t \<le> now0 + ttl \<longrightarrow> store_get d1 t k = (v, d1) \<and> store_has d1 t k = (True, d1))
   \<and> (\<forall>t. now0 + ttl < t \<longrightarrow>
          store_get d1 t k = (VUndefined, AList.delete k d1)
        \<and> store_has d1 t k = (False, AList.delete k d1)
        \<and> map_of (AList.delete k d1) k = None
        \<and> map_of (store_cleanup d1 t) k = None)
   \<and> (\<forall>(ops :: (int \<times> store_op) list) t. (\<forall>tp \<in> set ops. \<not> writes k (snd tp)) \<and> now0 + ttl < t \<longrightarrow>
          fst (store_get (store_run d1 ops) t k) = VUndefined
        \<and> \<not> fst (store_has (store_run d1 ops) t k)
        \<and> map_of (snd (store_get (store_run d1 ops) t k)) k = None
        \<and> map_of (snd (store_has (store_run d1 ops) t k)) k = None)
   \<and> (\<forall>t k' e x. map_of d k' = Some e \<and> expiresAt e = Some x \<and> x \<noteq> 0 \<and> x < t \<longrightarrow>
          map_of (store_cleanup d t) k' = None)"
proof -
  assume now0: "0 \<le> now0" and ttl: "0 < ttl" and d: "distinct (map fst d)"
    and d1: "d1 = store_set d now0 k v (Some ttl)"
  let ?e = "\<lparr>entry_value = v, expiresAt = Some (now0 + ttl)\<rparr>"
  have dd: "distinct (map fst d1)" using d by (simp add: d1 store_set_def distinct_update)
  have m: "map_of d1 k = Some ?e" using ttl by (simp add: d1 store_set_def update_conv')
  have ex: "expired ?e t \<longleftrightarrow> now0 + ttl < t" for t
    using now0 ttl by (auto simp: expired_def)
  have A: "\<forall>t. t \<le> now0 + ttl \<longrightarrow> store_get d1 t k = (v, d1) \<and> store_has d1 t k = (True, d1)"
    using m ex by (simp add: store_get_def store_has_def)
  have B: "\<forall>t. now0 + ttl < t \<longrightarrow>
          store_get d1 t k = (VUndefined, AList.delete k d1)
        \<and> store_has d1 t k = (False, AList.delete k d1)
        \<and> map_of (AList.delete k d1) k = None
        \<and> map_of (store_cleanup d1 t) k = None"
    using m ex dd by (simp add: store_get_def store_has_def delete_conv' store_cleanup_map_of)
  have C: "\<forall>(ops :: (int \<times> store_op) list) t. (\<forall>tp \<in> set ops. \<not> writes k (snd tp)) \<and> now0 + ttl < t \<longrightarrow>
          fst (store_get (store_run d1 ops) t k) = VUndefined
        \<and> \<not> fst (store_has (store_run d1 ops) t k)
        \<and> map_of (snd (store_get (store_run d1 ops) t k)) k = None
        \<and> map_of (snd (store_has (store_run d1 ops) t k)) k = None"
  proof (intro allI impI)
    fix ops :: "(int \<times> store_op) list" and t :: int
    assume h: "(\<forall>tp \<in> set ops. \<not> writes k (snd tp)) \<and> now0 + ttl < t"
    then have "map_of (store_run d1 ops) k = Some ?e \<or> map_of (store_run d1 ops) k = None"
      using dd m by (intro store_run_same_or_gone) auto
    then show "fst (store_get (store_run d1 ops) t k) = VUndefined
        \<and> \<not> fst (store_has (store_run d1 ops) t k)
        \<and> map_of (snd (store_get (store_run d1 ops) t k)) k = None
        \<and> map_of (snd (store_has (store_run d1 ops) t k)) k = None"
      using h ex by (auto simp: store_get_def store_has_def delete_conv')
  qed
  have D: "\<forall>t k' e x. map_of d k' = Some e \<and> expiresAt e = Some x \<and> x \<noteq> 0 \<and> x < t \<longrightarrow>
          map_of (store_cleanup d t) k' = None"
    using d by (auto simp: store_cleanup_map_of expired_def)
  show ?thesis using A B C D by blast
qed


theorem C6_ttl_expiry_witness:
  "store_get (store_set [] 1000 ''k'' (VNum 7) (Some 50)) 1000 ''k''
      = (VNum 7, [(''k'', \<lparr>entry_value = VNum 7, expiresAt = Some 1050\<rparr>)])
   \<and> store_has (store_set [] 1000 ''k'' (VNum 7) (Some 50)) 1050 ''k''
      = (True, [(''k'', \<lparr>entry_value = VNum 7, expiresAt = Some 1050\<rparr>)])
   \<and> store_get (store_set [] 1000 ''k'' (VNum 7) (Some 50)) 1060 ''k'' = (VUndefined, [])
   \<and> store_has (store_set [] 1000 ''k'' (VNum 7) (Some 50)) 1060 ''k'' = (False, [])
   \<and> store_cleanup (store_set [] 1000 ''k'' (VNum 7) (Some 50)) 1060 = []
   \<and> fst (store_get (store_run (store_set [] 1000 ''k'' (VNum 7) (Some 50))
        [(1010, OpGet ''j''), (1020, OpSet ''j'' VNull None), (1040, OpCleanup)]) 1051 ''k'')
      = VUndefined"
  using C6_ttl_expiry [of 1000 50 "[]" "store_set [] 1000 ''k'' (VNum 7) (Some 50)" "''k''" "VNum 7"]
  by (simp add: store_get_def store_has_def store_set_def store_cleanup_def expired_def
      store_run_def)

theorem C10_ttl_zero_never_expires_witness:
  "store_get (store_run (store_set [] 1000 ''k'' (VNum 7) (Some 0))
        [(1010, OpGet ''j''), (1020, OpSet ''j'' VNull (Some 5)), (99999999, OpCleanup)])
      100000000000 ''k''
     = (VNum 7, [(''k'', \<lparr>entry_value = VNum 7, expiresAt = None\<rparr>)])
   \<and> store_has [(''k'', \<lparr>entry_value = VNum 7, expiresAt = None\<rparr>)] 100000000000 ''k''
     = (True, [(''k'', \<lparr>entry_value = VNum 7, expiresAt = None\<rparr>)])"
  using C10_ttl_zero_never_expires [of "[]"
      "[(1010, OpGet ''j''), (1020, OpSet ''j'' VNull (Some 5)), (99999999, OpCleanup)]" "''k''"
      "store_run (store_set [] 1000 ''k'' (VNum 7) (Some 0))
        [(1010, OpGet ''j''), (1020, OpSet ''j'' VNull (Some 5)), (99999999, OpCleanup)]"
      1000 "VNum 7" 100000000000]
  by (simp add: store_get_def store_has_def store_set_def store_cleanup_def expired_def
      store_run_def)

section \<open>Properties of the IPC handler and the store client\<close>

lemma settle_count_append:
  "settle_count n (xs @ ys) = settle_count n xs + settle_count n ys"
  "settle_count_all n (xs @ ys) = settle_count_all n xs + settle_count_all n ys"
  by (simp_all add: settle_count_def settle_count_all_def)

lemma settle_count_single:
  "settle_count n [x] = (if settles n x then 1 else 0)"
  "settle_count_all n [x] = (if settles_all n x then 1 else 0)"
  by (simp_all add: settle_count_def settle_count_all_def)

lemma handle_request_frame:
  "snd (handle_request s n h d sc) = s\<lparr>sent := sent (snd (handle_request s n h d sc))\<rparr>"
  by (auto simp: handle_request_def do_send_def
      split: option.splits handler_outcome.splits sum.splits)

lemma count_keys:
  "distinct (map fst ps) \<Longrightarrow>
   length (filter (\<lambda>a. fst a = n) ps) = (if has_key ps n then 1 else 0)"
proof (induction ps)
  case Nil
  then show ?case by (simp add: has_key_def)
next
  case (Cons a ps)
  have "fst a = n \<Longrightarrow> \<not> has_key ps n"
    using Cons.prems by (auto simp: has_key_def map_of_eq_None_iff)
  then show ?case using Cons by (auto simp: has_key_def)
qed

lemma filter_rejected_map:
  "filter (settles n) (map (\<lambda>(m, p). Rejected m e) ps)
     = map (\<lambda>(m, p). Rejected m e) (filter (\<lambda>a. fst a = n) ps)"
  "filter (settles_all n) (map (\<lambda>(m, p). Rejected m e) ps) = []"
  by (induction ps) auto

lemma filter_rejected_all_map:
  "filter (settles_all n) (map (\<lambda>(m, p). RejectedAll m e) qs)
     = map (\<lambda>(m, p). RejectedAll m e) (filter (\<lambda>a. fst a = n) qs)"
  "filter (settles n) (map (\<lambda>(m, p). RejectedAll m e) qs) = []"
  by (induction qs) auto

lemma clear_promise_timers:
  "set (foldl (\<lambda>ts (n, promise). clearTimeout (sp_timeout promise) ts) ts ps)
     = set ts - {x. \<exists>n p. (n, p) \<in> set ps \<and> sp_timeout p = Some x}"
  by (induction ps arbitrary: ts) (auto simp: clearTimeout_def split: option.splits)

lemma clear_all_timers:
  "set (foldl (\<lambda>ts (n, pending). clearTimeout (pa_timeout pending) ts) ts ps) \<subseteq> set ts"
proof (induction ps arbitrary: ts)
  case Nil
  then show ?case by simp
next
  case (Cons a ps)
  obtain n p where a: "a = (n, p)" by (cases a)
  have "set (clearTimeout (pa_timeout p) ts) \<subseteq> set ts"
    by (auto simp: clearTimeout_def split: option.splits)
  then show ?case using Cons.IH [of "clearTimeout (pa_timeout p) ts"] by (auto simp: a)
qed

lemma clearPending_no_request_timer:
  assumes "ipc_wf s"
  shows "RequestTimer n \<notin> set (timers (clearPending s))"
proof
  assume "RequestTimer n \<in> set (timers (clearPending s))"
  then have t: "RequestTimer n \<in> set (timers s) - {x. \<exists>n p. (n, p) \<in> set (promises s) \<and> sp_timeout p = Some x}"
    using clear_all_timers clear_promise_timers unfolding clearPending_def by fastforce
  then have "map_of (promises s) n = Some \<lparr>sp_timeout = Some (RequestTimer n)\<rparr>"
    using assms unfolding ipc_wf_def by fastforce
  then have "(n, \<lparr>sp_timeout = Some (RequestTimer n)\<rparr>) \<in> set (promises s)"
    by (rule map_of_SomeD)
  then show False using t by force
qed

lemma clearPending_wf: "ipc_wf s \<Longrightarrow> ipc_wf (clearPending s)"
proof -
  assume wf: "ipc_wf s"
  have "promises (clearPending s) = []" "pendingAll (clearPending s) = []"
    by (simp_all add: clearPending_def)
  then show ?thesis
    unfolding ipc_wf_def using clearPending_no_request_timer [OF wf] by simp
qed

lemma clearPending_phi: "ipc_wf s \<Longrightarrow> phi n (clearPending s) = phi n s"
  by (simp add: phi_def clearPending_def ipc_wf_def settle_count_def filter_rejected_map filter_rejected_all_map
      count_keys has_key_Nil)

lemma clearPending_psi: "ipc_wf s \<Longrightarrow> psi n (clearPending s) = psi n s"
  by (simp add: psi_def clearPending_def ipc_wf_def settle_count_all_def filter_rejected_map filter_rejected_all_map
      count_keys has_key_Nil)


lemma wf_keep_promises:
  "ipc_wf s \<Longrightarrow> promises s' = promises s \<Longrightarrow> set (timers s') \<subseteq> set (timers s) \<Longrightarrow>
   distinct (map fst (pendingAll s')) \<Longrightarrow> ipc_wf s'"
  unfolding ipc_wf_def by auto

lemma wf_drop_promise:
  "ipc_wf s \<Longrightarrow> promises s' = AList.delete n (promises s) \<Longrightarrow>
   set (timers s') \<subseteq> set (timers s) - {RequestTimer n} \<Longrightarrow>
   pendingAll s' = pendingAll s \<Longrightarrow> ipc_wf s'"
  unfolding ipc_wf_def
  by (auto simp: distinct_delete delete_conv')

lemma clearTimeout_subset: "set (clearTimeout t ts) \<subseteq> set ts"
  by (auto simp: clearTimeout_def split: option.splits)

lemma deliver_all_promises: "promises (deliver_all s n p c v) = promises s"
  by (simp add: deliver_all_def Let_def)

lemma deliver_all_timers: "set (timers (deliver_all s n p c v)) \<subseteq> set (timers s)"
  using clearTimeout_subset by (auto simp: deliver_all_def Let_def)

lemma deliver_all_distinct:
  "distinct (map fst (pendingAll s)) \<Longrightarrow> distinct (map fst (pendingAll (deliver_all s n p c v)))"
  by (simp add: deliver_all_def Let_def distinct_delete distinct_update)

lemma deliver_all_wf: "ipc_wf s \<Longrightarrow> ipc_wf (deliver_all s n p c v)"
  by (rule wf_keep_promises [of s])
     (auto simp: deliver_all_promises deliver_all_distinct ipc_wf_def
        intro: subsetD [OF deliver_all_timers])

lemma resolve_promise_wf:
  assumes "ipc_wf s" "map_of (promises s) n = Some promise"
  shows "ipc_wf (s\<lparr>timers := clearTimeout (sp_timeout promise) (timers s),
                   promises := AList.delete n (promises s),
                   settled := lg\<rparr>)"
proof (rule wf_drop_promise [OF assms(1), of _ n])
  have "RequestTimer n \<in> set (timers s) \<Longrightarrow> sp_timeout promise = Some (RequestTimer n)"
    using assms unfolding ipc_wf_def by fastforce
  then show "set (timers (s\<lparr>timers := clearTimeout (sp_timeout promise) (timers s),
                   promises := AList.delete n (promises s),
                   settled := lg\<rparr>)) \<subseteq> set (timers s) - {RequestTimer n}"
    by (auto simp: clearTimeout_def split: option.splits)
qed simp_all

lemma handle_request_wf: "ipc_wf s \<Longrightarrow> ipc_wf (snd (handle_request s n h d sc))"
  by (subst handle_request_frame) (simp add: ipc_wf_def)

lemma handleIncoming_wf: "ipc_wf s \<Longrightarrow> ipc_wf (snd (handleIncoming s m sc))"
  by (cases m)
     (auto simp: handleIncoming_def handle_request_wf deliver_all_wf resolve_promise_wf
        split: option.splits)

lemma timer_fires_wf: "ipc_wf s \<Longrightarrow> ipc_wf (timer_fires s t)"
proof (cases "t \<in> set (timers s)")
  case False
  then show "ipc_wf s \<Longrightarrow> ?thesis" by (simp add: timer_fires_def)
next
  case armed: True
  assume wf: "ipc_wf s"
  show ?thesis
  proof (cases t)
    case (RequestTimer n)
    show ?thesis
      by (rule wf_drop_promise [OF wf, of _ n])
         (use armed in \<open>auto simp: timer_fires_def Let_def RequestTimer\<close>)
  next
    case (RequestAllTimer n)
    show ?thesis
      by (rule wf_keep_promises [OF wf])
         (use wf armed in \<open>auto simp: timer_fires_def Let_def RequestAllTimer distinct_delete ipc_wf_def
            split: option.splits\<close>)
  next
    case (StoreTimer n)
    show ?thesis
      by (rule wf_keep_promises [OF wf])
         (use wf armed in \<open>auto simp: timer_fires_def Let_def StoreTimer ipc_wf_def\<close>)
  next
    case (AckTimer n)
    show ?thesis
      by (rule wf_keep_promises [OF wf])
         (use wf armed in \<open>auto simp: timer_fires_def Let_def AckTimer ipc_wf_def\<close>)
  qed
qed

lemma ipc_step_wf: "ipc_wf s \<Longrightarrow> ipc_wf (ipc_step s ev)"
  by (cases ev) (simp_all add: handleIncoming_wf timer_fires_wf clearPending_wf)

lemma ipc_run_wf: "ipc_wf s \<Longrightarrow> ipc_wf (ipc_run s evs)"
  unfolding ipc_run_def by (induction evs arbitrary: s) (simp_all add: ipc_step_wf)


lemma deliver_all_phi: "phi n (deliver_all s m p c v) = phi n s"
  by (simp add: phi_def deliver_all_def Let_def settle_count_append settle_count_single)

lemma deliver_all_psi:
  "map_of (pendingAll s) m = Some p \<Longrightarrow> psi n (deliver_all s m p c v) = psi n s"
  by (auto simp: psi_def deliver_all_def Let_def settle_count_append settle_count_single
      has_key_def update_conv' delete_conv')

lemma handle_request_phi: "phi n (snd (handle_request s m h d sc)) = phi n s"
  by (subst handle_request_frame) (simp add: phi_def)

lemma handle_request_psi: "psi n (snd (handle_request s m h d sc)) = psi n s"
  by (subst handle_request_frame) (simp add: psi_def)

lemma settle_promise_phi:
  "map_of (promises s) m = Some p \<Longrightarrow> x = Resolved m v \<or> x = Rejected m e \<Longrightarrow>
   phi n (s\<lparr>timers := ts, promises := AList.delete m (promises s), settled := settled s @ [x]\<rparr>)
     = phi n s"
  by (auto simp: phi_def settle_count_append settle_count_single has_key_def delete_conv')

lemma settle_promise_psi:
  "x = Resolved m v \<or> x = Rejected m e \<Longrightarrow>
   psi n (s\<lparr>timers := ts, promises := ps, settled := settled s @ [x]\<rparr>) = psi n s"
  by (auto simp: psi_def settle_count_append settle_count_single)

lemma handleIncoming_phi: "phi n (snd (handleIncoming s m sc)) = phi n s"
  by (cases m)
     (simp_all add: handleIncoming_def handle_request_phi deliver_all_phi settle_promise_phi
        split: option.splits)

lemma handleIncoming_psi: "psi n (snd (handleIncoming s m sc)) = psi n s"
  by (cases m)
     (simp_all add: handleIncoming_def handle_request_psi deliver_all_psi settle_promise_psi
        split: option.splits)

lemma timer_fires_phi: "ipc_wf s \<Longrightarrow> phi n (timer_fires s t) = phi n s"
proof (cases "t \<in> set (timers s)")
  case False
  then show ?thesis by (simp add: timer_fires_def)
next
  case armed: True
  assume wf: "ipc_wf s"
  show ?thesis
  proof (cases t)
    case (RequestTimer m)
    then have "map_of (promises s) m = Some \<lparr>sp_timeout = Some (RequestTimer m)\<rparr>"
      using wf armed unfolding ipc_wf_def by blast
    then show ?thesis
      using armed RequestTimer
      by (auto simp: timer_fires_def Let_def phi_def settle_count_append settle_count_single
          has_key_def delete_conv')
  qed (use armed in \<open>auto simp: timer_fires_def Let_def phi_def settle_count_append
          settle_count_single split: option.splits\<close>)
qed

lemma timer_fires_psi: "psi n (timer_fires s t) = psi n s"
  by (cases t)
     (auto simp: timer_fires_def Let_def psi_def settle_count_append settle_count_single
        has_key_def delete_conv' split: option.splits)

lemma ipc_step_phi: "ipc_wf s \<Longrightarrow> phi n (ipc_step s ev) = phi n s"
  by (cases ev) (simp_all add: handleIncoming_phi timer_fires_phi clearPending_phi)

lemma ipc_step_psi: "ipc_wf s \<Longrightarrow> psi n (ipc_step s ev) = psi n s"
  by (cases ev) (simp_all add: handleIncoming_psi timer_fires_psi clearPending_psi)

lemma ipc_run_phi_psi:
  "ipc_wf s \<Longrightarrow> phi n (ipc_run s evs) = phi n s \<and> psi n (ipc_run s evs) = psi n s"
  unfolding ipc_run_def
  by (induction evs arbitrary: s) (simp_all add: ipc_step_wf ipc_step_phi ipc_step_psi)


lemma sc_wf_drop:
  "sc_wf c \<Longrightarrow> sc_promises c' = AList.delete n (sc_promises c) \<Longrightarrow>
   set (sc_timers c') \<subseteq> set (sc_timers c) - {StoreTimer n} \<Longrightarrow> sc_wf c'"
  unfolding sc_wf_def
  by (auto simp: distinct_delete delete_conv')

lemma handleResponse_wf: "sc_wf c \<Longrightarrow> sc_wf (handleResponse c n v)"
proof (cases "map_of (sc_promises c) n")
  case None
  then show "sc_wf c \<Longrightarrow> ?thesis" by (simp add: handleResponse_def)
next
  case (Some p)
  assume wf: "sc_wf c"
  have "StoreTimer n \<in> set (sc_timers c) \<Longrightarrow> sp_timeout p = Some (StoreTimer n)"
    using wf Some unfolding sc_wf_def by fastforce
  then show ?thesis
    by (intro sc_wf_drop [OF wf, of _ n])
       (auto simp: handleResponse_def Some clearTimeout_def split: option.splits)
qed

lemma sc_timer_fires_wf: "sc_wf c \<Longrightarrow> sc_wf (sc_timer_fires c t)"
proof (cases "t \<in> set (sc_timers c)")
  case False
  then show "sc_wf c \<Longrightarrow> ?thesis" by (simp add: sc_timer_fires_def)
next
  case armed: True
  assume wf: "sc_wf c"
  show ?thesis
  proof (cases t)
    case (StoreTimer n)
    show ?thesis
      by (rule sc_wf_drop [OF wf, of _ n])
         (use armed in \<open>auto simp: sc_timer_fires_def Let_def StoreTimer\<close>)
  qed (use wf armed in \<open>auto simp: sc_timer_fires_def Let_def sc_wf_def\<close>)
qed

lemma handleResponse_phi: "sc_phi n (handleResponse c m v) = sc_phi n c"
  by (auto simp: handleResponse_def sc_phi_def settle_count_append settle_count_single
      has_key_def delete_conv' split: option.splits)

lemma sc_timer_fires_phi: "sc_wf c \<Longrightarrow> sc_phi n (sc_timer_fires c t) = sc_phi n c"
proof (cases "t \<in> set (sc_timers c)")
  case False
  then show ?thesis by (simp add: sc_timer_fires_def)
next
  case armed: True
  assume wf: "sc_wf c"
  show ?thesis
  proof (cases t)
    case (StoreTimer m)
    then have "map_of (sc_promises c) m = Some \<lparr>sp_timeout = Some (StoreTimer m)\<rparr>"
      using wf armed unfolding sc_wf_def by blast
    then show ?thesis
      using armed StoreTimer
      by (auto simp: sc_timer_fires_def Let_def sc_phi_def settle_count_append
          settle_count_single has_key_def delete_conv')
  qed (use armed in \<open>auto simp: sc_timer_fires_def Let_def sc_phi_def\<close>)
qed

lemma sc_run_wf_phi:
  "sc_wf c \<Longrightarrow> sc_wf (sc_run c evs) \<and> sc_phi n (sc_run c evs) = sc_phi n c"
  unfolding sc_run_def
proof (induction evs arbitrary: c)
  case Nil
  then show ?case by simp
next
  case (Cons ev evs)
  have "sc_wf (sc_step c ev) \<and> sc_phi n (sc_step c ev) = sc_phi n c"
    using Cons.prems
    by (cases ev) (simp_all add: handleResponse_wf handleResponse_phi sc_timer_fires_wf
        sc_timer_fires_phi)
  then show ?case using Cons.IH [of "sc_step c ev"] by simp
qed

text \<open>
  Claim C1. Take a handler and a store client in well-formed states and let any sequence
  of events happen to each: incoming messages of every kind, firings of armed timers and,
  for the handler, calls of \<open>clearPending\<close>. For every nonce, the promise stored under
  it by \<open>createPromise\<close> (settled by \<open>HandlerResponse\<close>, \<open>HandlerError\<close> or its timer),
  the one stored by \<open>requestAll\<close>, and the store client's promise (settled by
  \<open>StoreResponse\<close> or its timer) are each settled at most once more if an entry is
  pending at the start and not at all otherwise; once a settlement has happened the entry
  is gone; and a reply whose nonce has no pending entry returns the very same state, so
  nothing delivered before is touched.
\<close>

theorem C1_at_most_one_settlement:
  "ipc_wf s \<Longrightarrow> sc_wf c \<Longrightarrow> s' = ipc_run s evs \<Longrightarrow> c' = sc_run c cevs \<Longrightarrow>
     settle_count n (settled s') \<le> settle_count n (settled s) + (if has_key (promises s) n then 1 else 0)
   \<and> settle_count_all n (settled s')
        \<le> settle_count_all n (settled s) + (if has_key (pendingAll s) n then 1 else 0)
   \<and> settle_count n (sc_settled c')
        \<le> settle_count n (sc_settled c) + (if has_key (sc_promises c) n then 1 else 0)
   \<and> (settle_count n (settled s) < settle_count n (settled s') \<longrightarrow> \<not> has_key (promises s') n)
   \<and> (settle_count_all n (settled s) < settle_count_all n (settled s') \<longrightarrow>
        \<not> has_key (pendingAll s') n)
   \<and> (settle_count n (sc_settled c) < settle_count n (sc_settled c') \<longrightarrow>
        \<not> has_key (sc_promises c') n)
   \<and> (\<not> has_key (promises s') n \<and> \<not> has_key (pendingAll s') n \<longrightarrow>
        handleIncoming s' (HandlerResponse n v src) sc = (Fulfilled (), s')
      \<and> handleIncoming s' (HandlerError n e src) sc = (Fulfilled (), s'))
   \<and> (\<not> has_key (sc_promises c') n \<longrightarrow> handleResponse c' n v = c')"
proof -
  assume wf: "ipc_wf s" and cwf: "sc_wf c" and s': "s' = ipc_run s evs" and c': "c' = sc_run c cevs"
  have p: "phi n s' = phi n s" "psi n s' = psi n s"
    using ipc_run_phi_psi [OF wf, of n evs] by (simp_all add: s')
  have q: "sc_phi n c' = sc_phi n c"
    using sc_run_wf_phi [OF cwf, of cevs n] by (simp add: c')
  have late: "\<not> has_key (promises s') n \<and> \<not> has_key (pendingAll s') n \<longrightarrow>
        handleIncoming s' (HandlerResponse n v src) sc = (Fulfilled (), s')
      \<and> handleIncoming s' (HandlerError n e src) sc = (Fulfilled (), s')"
    by (simp add: handleIncoming_def has_key_def)
  have late_sc: "\<not> has_key (sc_promises c') n \<longrightarrow> handleResponse c' n v = c'"
    by (simp add: handleResponse_def has_key_def)
  show ?thesis
    using p q late late_sc unfolding phi_def psi_def sc_phi_def
    by (auto split: if_splits)
qed


theorem C1_at_most_one_settlement_witness:
  "settled (ipc_run (snd (request ipc_example ''a'' ''ping'' VNull (Some 1000)))
      [Incoming (HandlerResponse ''a'' (VNum 1) None) None,
       Incoming (HandlerError ''a'' (Some ''late'') None) None,
       TimerFires (RequestTimer ''a'')]) = [Resolved ''a'' (VNum 1)]
   \<and> sc_settled (sc_run (snd (sc_get sc_example ''g'' ''key'' 5000))
      [ScTimerFires (StoreTimer ''g''), ScResponse ''g'' (VNum 2)])
       = [Rejected ''g'' ''Store request timed out'']
   \<and> settle_count ''a'' (settled (ipc_run (snd (request ipc_example ''a'' ''ping'' VNull (Some 1000)))
      [Incoming (HandlerResponse ''a'' (VNum 1) None) None,
       Incoming (HandlerError ''a'' (Some ''late'') None) None,
       TimerFires (RequestTimer ''a'')])) \<le> 1
   \<and> settle_count ''g'' (sc_settled (sc_run (snd (sc_get sc_example ''g'' ''key'' 5000))
      [ScTimerFires (StoreTimer ''g''), ScResponse ''g'' (VNum 2)])) \<le> 1"
proof -
  let ?s = "snd (request ipc_example ''a'' ''ping'' VNull (Some 1000))"
  let ?c = "snd (sc_get sc_example ''g'' ''key'' 5000)"
  let ?evs = "[Incoming (HandlerResponse ''a'' (VNum 1) None) None,
       Incoming (HandlerError ''a'' (Some ''late'') None) None,
       TimerFires (RequestTimer ''a'')]"
  let ?cevs = "[ScTimerFires (StoreTimer ''g''), ScResponse ''g'' (VNum 2)]"
  have s: "?s = \<lparr>handlers = handlers ipc_example,
      promises = [(''a'', \<lparr>sp_timeout = Some (RequestTimer ''a'')\<rparr>)], pendingAll = [],
      send = send ipc_example, totalClusters = Some 3,
      timers = [RequestTimer ''a''], sent = [HandlerRequest ''a'' ''ping'' VNull], settled = []\<rparr>"
    by (simp add: request_def do_send_def createPromise_def ipc_example_def)
  have c: "?c = \<lparr>sc_promises = [(''g'', \<lparr>sp_timeout = Some (StoreTimer ''g'')\<rparr>)],
      sc_send = sc_send sc_example, sc_timers = [StoreTimer ''g''],
      sc_sent = [StoreGet ''g'' ''key''], sc_settled = []\<rparr>"
    by (simp add: sc_get_def sc_roundtrip_def sc_createPromise_def sc_example_def)
  have wf: "ipc_wf ?s" unfolding s by (simp add: ipc_wf_def)
  have cwf: "sc_wf ?c" unfolding c by (simp add: sc_wf_def)
  have e1: "settled (ipc_run ?s ?evs) = [Resolved ''a'' (VNum 1)]"
    unfolding s
    by (simp add: ipc_run_def handleIncoming_def timer_fires_def clearTimeout_def)
  have e2: "sc_settled (sc_run ?c ?cevs) = [Rejected ''g'' ''Store request timed out'']"
    unfolding c
    by (simp add: sc_run_def handleResponse_def sc_timer_fires_def clearTimeout_def)
  show ?thesis
    using
      C1_at_most_one_settlement [of ?s ?c "ipc_run ?s ?evs" ?evs "sc_run ?c ?cevs" ?cevs "''a''",
        OF wf cwf refl refl]
      C1_at_most_one_settlement [of ?s ?c "ipc_run ?s ?evs" ?evs "sc_run ?c ?cevs" ?cevs "''g''",
        OF wf cwf refl refl] e1 e2
    unfolding s c
    by (simp add: has_key_def settle_count_def)
qed

text \<open>
  Claim C4. For an incoming \<open>HandlerRequest\<close> or \<open>HandlerRequestAll\<close>, the messages
  \<open>handleIncoming\<close> hands to \<open>send\<close> are: if no handler of that name is registered,
  exactly one \<open>HandlerError\<close> with the request's nonce and the text
  \<open>No handler registered for '<name>'\<close>, and no \<open>HandlerResponse\<close>; if the handler
  returns, exactly one \<open>HandlerResponse\<close> with the nonce and the returned value (when
  that send rejects, the \<open>catch\<close> block follows it with a \<open>HandlerError\<close> carrying the
  send's error); if the handler throws a value other than \<open>null\<close> and \<open>undefined\<close>,
  exactly one \<open>HandlerError\<close> with the nonce and the thrown value's message. In these
  cases nothing but the list of sent messages changes. The code departs from the claim
  where the handler throws \<open>null\<close> or \<open>undefined\<close>: then nothing at all is sent, the
  state is unchanged and \<open>handleIncoming\<close> rejects with the \<open>TypeError\<close> of the
  \<open>catch\<close> block. While the handler's promise does not settle nothing is sent either.
\<close>

theorem C4_request_replies:
  "msg = HandlerRequest n h d \<or> msg = HandlerRequestAll n h d \<Longrightarrow>
   new = drop (length (sent s)) (sent (snd (handleIncoming s msg sc))) \<Longrightarrow>
     (map_of (handlers s) h = None \<longrightarrow>
        snd (handleIncoming s msg sc)
          = s\<lparr>sent := sent s @ [HandlerError n (Some (no_handler_text h)) sc]\<rparr>
      \<and> new = [HandlerError n (Some (no_handler_text h)) sc])
   \<and> (\<forall>fn v. map_of (handlers s) h = Some fn \<and> fn d = Returns v \<longrightarrow>
        filter is_response new = [HandlerResponse n v sc]
      \<and> (send s (HandlerResponse n v sc) = None \<longrightarrow>
            handleIncoming s msg sc = (Fulfilled (), s\<lparr>sent := sent s @ [HandlerResponse n v sc]\<rparr>))
      \<and> (\<forall>e. send s (HandlerResponse n v sc) = Some e \<longrightarrow>
            new = [HandlerResponse n v sc, HandlerError n (Some e) sc]))
   \<and> (\<forall>fn m. map_of (handlers s) h = Some fn \<and> fn d = Throws (Thrown m) \<longrightarrow>
        snd (handleIncoming s msg sc) = s\<lparr>sent := sent s @ [HandlerError n m sc]\<rparr>
      \<and> new = [HandlerError n m sc])
   \<and> (\<forall>fn err typeError.
        map_of (handlers s) h = Some fn \<and> fn d = Throws err \<and> read_message err = Inl typeError \<longrightarrow>
        handleIncoming s msg sc = (RejectedWith typeError, s) \<and> new = [])
   \<and> (\<forall>fn err. map_of (handlers s) h = Some fn \<and> fn d = Throws err \<and> is_nullish err \<longrightarrow>
        filter is_error new = [] \<and> (\<exists>typeError. read_message err = Inl typeError))
   \<and> (\<forall>fn. map_of (handlers s) h = Some fn \<and> fn d = NeverSettles \<longrightarrow>
        handleIncoming s msg sc = (Pending, s) \<and> new = [])"
proof -
  assume msg: "msg = HandlerRequest n h d \<or> msg = HandlerRequestAll n h d"
    and new: "new = drop (length (sent s)) (sent (snd (handleIncoming s msg sc)))"
  have hi: "handleIncoming s msg sc = handle_request s n h d sc"
    using msg by (auto simp: handleIncoming_def)
  have A: "map_of (handlers s) h = None \<longrightarrow>
        snd (handleIncoming s msg sc)
          = s\<lparr>sent := sent s @ [HandlerError n (Some (no_handler_text h)) sc]\<rparr>
      \<and> new = [HandlerError n (Some (no_handler_text h)) sc]"
    unfolding new hi
    by (auto simp: handle_request_def do_send_def no_handler_text_def split: option.splits)
  have B: "\<forall>fn v. map_of (handlers s) h = Some fn \<and> fn d = Returns v \<longrightarrow>
        filter is_response new = [HandlerResponse n v sc]
      \<and> (send s (HandlerResponse n v sc) = None \<longrightarrow>
            handleIncoming s msg sc = (Fulfilled (), s\<lparr>sent := sent s @ [HandlerResponse n v sc]\<rparr>))
      \<and> (\<forall>e. send s (HandlerResponse n v sc) = Some e \<longrightarrow>
            new = [HandlerResponse n v sc, HandlerError n (Some e) sc])"
    unfolding new hi
    by (auto simp: handle_request_def do_send_def split: option.splits)
  have C: "\<forall>fn m. map_of (handlers s) h = Some fn \<and> fn d = Throws (Thrown m) \<longrightarrow>
        snd (handleIncoming s msg sc) = s\<lparr>sent := sent s @ [HandlerError n m sc]\<rparr>
      \<and> new = [HandlerError n m sc]"
    unfolding new hi
    by (auto simp: handle_request_def do_send_def split: option.splits)
  have D: "\<forall>fn err typeError.
        map_of (handlers s) h = Some fn \<and> fn d = Throws err \<and> read_message err = Inl typeError \<longrightarrow>
        handleIncoming s msg sc = (RejectedWith typeError, s) \<and> new = []"
    unfolding new hi by (auto simp: handle_request_def)
  have E: "\<forall>fn err. map_of (handlers s) h = Some fn \<and> fn d = Throws err \<and> is_nullish err \<longrightarrow>
        filter is_error new = [] \<and> (\<exists>typeError. read_message err = Inl typeError)"
  proof (intro allI impI)
    fix fn err
    assume a: "map_of (handlers s) h = Some fn \<and> fn d = Throws err \<and> is_nullish err"
    then obtain typeError where t: "read_message err = Inl typeError"
      by (cases err) auto
    then have "new = []" using D a by blast
    then show "filter is_error new = [] \<and> (\<exists>typeError. read_message err = Inl typeError)"
      using t by simp
  qed
  have F: "\<forall>fn. map_of (handlers s) h = Some fn \<and> fn d = NeverSettles \<longrightarrow>
        handleIncoming s msg sc = (Pending, s) \<and> new = []"
    unfolding new hi by (auto simp: handle_request_def)
  show ?thesis using A B C D E F by blast
qed

theorem C4_request_replies_witness:
  "sent (snd (handleIncoming ipc_example (HandlerRequest ''n1'' ''ping'' VNull) (Some 2)))
     = [HandlerResponse ''n1'' (VStr ''pong'') (Some 2)]
   \<and> sent (snd (handleIncoming ipc_example (HandlerRequestAll ''n2'' ''boom'' VNull) (Some 2)))
     = [HandlerError ''n2'' (Some ''bad'') (Some 2)]
   \<and> sent (snd (handleIncoming ipc_example (HandlerRequest ''n3'' ''nope'' VNull) None))
     = [HandlerError ''n3'' (Some (no_handler_text ''nope'')) None]
   \<and> sent (snd (handleIncoming ipc_example_closed (HandlerRequest ''n4'' ''ping'' VNull) None))
     = [HandlerResponse ''n4'' (VStr ''pong'') None,
        HandlerError ''n4'' (Some ''No process to send IPC message.'') None]
   \<and> handleIncoming ipc_example_odd (HandlerRequest ''n5'' ''null'' VNull) (Some 2)
     = (RejectedWith ''Cannot read properties of null (reading 'message')'', ipc_example_odd)
   \<and> sent (snd (handleIncoming ipc_example_odd (HandlerRequest ''n5'' ''null'' VNull) (Some 2))) = []"
proof -
  have s0: "sent ipc_example = []" "sent ipc_example_closed = []" "sent ipc_example_odd = []"
    by (simp_all add: ipc_example_def ipc_example_closed_def ipc_example_odd_def)
  have h1: "map_of (handlers ipc_example) ''ping'' = Some (\<lambda>d. Returns (VStr ''pong''))
      \<and> (\<lambda>d. Returns (VStr ''pong'')) VNull = Returns (VStr ''pong'')"
    and h2: "map_of (handlers ipc_example) ''boom'' = Some (\<lambda>d. Throws (Thrown (Some ''bad'')))
      \<and> (\<lambda>d. Throws (Thrown (Some ''bad''))) VNull = Throws (Thrown (Some ''bad''))"
    and h3: "map_of (handlers ipc_example) ''nope'' = None"
    and h4: "map_of (handlers ipc_example_closed) ''ping'' = Some (\<lambda>d. Returns (VStr ''pong''))
      \<and> (\<lambda>d. Returns (VStr ''pong'')) VNull = Returns (VStr ''pong'')"
    and h5: "map_of (handlers ipc_example_odd) ''null'' = Some (\<lambda>d. Throws ThrownNull)
      \<and> (\<lambda>d. Throws ThrownNull) VNull = Throws ThrownNull
      \<and> read_message ThrownNull = Inl ''Cannot read properties of null (reading 'message')''"
    by (simp_all add: ipc_example_def ipc_example_closed_def ipc_example_odd_def)
  have ok: "send ipc_example (HandlerResponse ''n1'' (VStr ''pong'') (Some 2)) = None"
    and rej: "send ipc_example_closed (HandlerResponse ''n4'' (VStr ''pong'') None)
        = Some ''No process to send IPC message.''"
    by (simp_all add: ipc_example_def ipc_example_closed_def)
  note T1 = C4_request_replies [where s = ipc_example and n = "''n1''" and h = "''ping''"
      and d = VNull and sc = "Some 2", OF disjI1 [OF refl] refl]
  note T2 = C4_request_replies [where s = ipc_example and n = "''n2''" and h = "''boom''"
      and d = VNull and sc = "Some 2", OF disjI2 [OF refl] refl]
  note T3 = C4_request_replies [where s = ipc_example and n = "''n3''" and h = "''nope''"
      and d = VNull and sc = None, OF disjI1 [OF refl] refl]
  note T4 = C4_request_replies [where s = ipc_example_closed and n = "''n4''" and h = "''ping''"
      and d = VNull and sc = None, OF disjI1 [OF refl] refl]
  note T5 = C4_request_replies [where s = ipc_example_odd and n = "''n5''" and h = "''null''"
      and d = VNull and sc = "Some 2", OF disjI1 [OF refl] refl]
  have a: "sent (snd (handleIncoming ipc_example (HandlerRequest ''n1'' ''ping'' VNull) (Some 2)))
     = [HandlerResponse ''n1'' (VStr ''pong'') (Some 2)]"
    using T1 [THEN conjunct2, THEN conjunct1, THEN spec, THEN spec, THEN mp, OF h1,
        THEN conjunct2, THEN conjunct1, THEN mp, OF ok]
    by (simp add: s0)
  have b: "sent (snd (handleIncoming ipc_example (HandlerRequestAll ''n2'' ''boom'' VNull) (Some 2)))
     = [HandlerError ''n2'' (Some ''bad'') (Some 2)]"
    using T2 [THEN conjunct2, THEN conjunct2, THEN conjunct1, THEN spec, THEN spec, THEN mp,
        OF h2, THEN conjunct1]
    by (simp add: s0)
  have c: "sent (snd (handleIncoming ipc_example (HandlerRequest ''n3'' ''nope'' VNull) None))
     = [HandlerError ''n3'' (Some (no_handler_text ''nope'')) None]"
    using T3 [THEN conjunct1, THEN mp, OF h3, THEN conjunct1] by (simp add: s0)
  have d0: "drop (length (sent ipc_example_closed))
         (sent (snd (handleIncoming ipc_example_closed (HandlerRequest ''n4'' ''ping'' VNull) None)))
     = [HandlerResponse ''n4'' (VStr ''pong'') None,
        HandlerError ''n4'' (Some ''No process to send IPC message.'') None]"
    using T4 [THEN conjunct2, THEN conjunct1, THEN spec, THEN spec, THEN mp, OF h4,
        THEN conjunct2, THEN conjunct2, THEN spec, THEN mp, OF rej] .
  have d: "sent (snd (handleIncoming ipc_example_closed (HandlerRequest ''n4'' ''ping'' VNull) None))
     = [HandlerResponse ''n4'' (VStr ''pong'') None,
        HandlerError ''n4'' (Some ''No process to send IPC message.'') None]"
    using d0 by (simp add: s0)
  note T5' = T5 [THEN conjunct2, THEN conjunct2, THEN conjunct2, THEN conjunct1,
        THEN spec, THEN spec, THEN spec, THEN mp, OF h5]
  have e: "handleIncoming ipc_example_odd (HandlerRequest ''n5'' ''null'' VNull) (Some 2)
     = (RejectedWith ''Cannot read properties of null (reading 'message')'', ipc_example_odd)"
    using T5' [THEN conjunct1] .
  have f: "sent (snd (handleIncoming ipc_example_odd (HandlerRequest ''n5'' ''null'' VNull) (Some 2))) = []"
    using T5' [THEN conjunct2] by (simp add: s0)
  show ?thesis by (intro conjI a b c d e f)
qed

section \<open>Properties of requestAll\<close>

lemma owned_keep_all:
  "timers_owned s \<Longrightarrow> set (promises s') \<subseteq> set (promises s) \<Longrightarrow>
   set (pendingAll s') \<subseteq> set (pendingAll s) \<Longrightarrow> timers_owned s'"
  unfolding timers_owned_def by blast

lemma deliver_all_owned:
  assumes "timers_owned s" "map_of (pendingAll s) m = Some pm"
  shows "timers_owned (deliver_all s m pm c v)"
proof -
  have pm: "(m, pm) \<in> set (pendingAll s)" using assms(2) by (rule map_of_SomeD)
  then have t: "pa_timeout pm = None \<or> pa_timeout pm = Some (RequestAllTimer m)"
    using assms(1) unfolding timers_owned_def by fastforce
  show ?thesis
  proof (cases "int (length (AList.update c v (results pm))) \<ge> expected pm")
    case True
    then show ?thesis
      by (intro owned_keep_all [OF assms(1)])
         (auto simp: deliver_all_def Let_def dest: in_delete_cases)
  next
    case False
    then show ?thesis
      using assms(1) t unfolding timers_owned_def
      by (auto simp: deliver_all_def Let_def dest!: in_update_cases)
  qed
qed

lemma handle_request_owned: "timers_owned s \<Longrightarrow> timers_owned (snd (handle_request s n h d sc))"
  by (subst handle_request_frame) (simp add: timers_owned_def)

lemma handleIncoming_owned: "timers_owned s \<Longrightarrow> timers_owned (snd (handleIncoming s m sc))"
proof (cases m)
  case (HandlerResponse k v src)
  assume o: "timers_owned s"
  have "timers_owned (s\<lparr>timers := ts, promises := AList.delete k (promises s), settled := lg\<rparr>)"
    for ts lg
    by (rule owned_keep_all [OF o]) (auto dest: in_delete_cases)
  then show ?thesis
    using o by (auto simp: handleIncoming_def HandlerResponse deliver_all_owned split: option.splits)
next
  case (HandlerError k e src)
  assume o: "timers_owned s"
  have "timers_owned (s\<lparr>timers := ts, promises := AList.delete k (promises s), settled := lg\<rparr>)"
    for ts lg
    by (rule owned_keep_all [OF o]) (auto dest: in_delete_cases)
  then show ?thesis
    using o by (auto simp: handleIncoming_def HandlerError deliver_all_owned split: option.splits)
qed (simp_all add: handleIncoming_def handle_request_owned)

lemma timer_fires_owned: "timers_owned s \<Longrightarrow> timers_owned (timer_fires s t)"
  by (rule owned_keep_all [of s])
     (auto simp: timer_fires_def Let_def split: timer.splits option.splits dest: in_delete_cases)

lemma clearPending_owned: "timers_owned (clearPending s)"
  by (simp add: timers_owned_def clearPending_def)

lemma ipc_step_owned: "timers_owned s \<Longrightarrow> timers_owned (ipc_step s ev)"
  by (cases ev) (simp_all add: handleIncoming_owned timer_fires_owned clearPending_owned)


lemma waiting_step_wf: "waiting s n p \<Longrightarrow> ipc_wf (ipc_step s ev) \<and> timers_owned (ipc_step s ev)"
  by (simp add: waiting_def ipc_step_wf ipc_step_owned)

text \<open>A reply for another call, or one without a source, leaves this call as it is.\<close>

lemma deliver_other:
  assumes w: "waiting s n p" and m: "m \<noteq> n" and pm: "map_of (pendingAll s) m = Some pm"
  shows "map_of (pendingAll (deliver_all s m pm c v)) n = Some p"
    and "RequestAllTimer n \<in> set (timers (deliver_all s m pm c v))"
    and "filter (settles_all n) (settled (deliver_all s m pm c v)) = filter (settles_all n) (settled s)"
proof -
  have "(m, pm) \<in> set (pendingAll s)" using pm by (rule map_of_SomeD)
  then have t: "pa_timeout pm = None \<or> pa_timeout pm = Some (RequestAllTimer m)"
    using w unfolding waiting_def timers_owned_def by fastforce
  show "map_of (pendingAll (deliver_all s m pm c v)) n = Some p"
    using w m by (simp add: deliver_all_def Let_def waiting_def update_conv' delete_conv')
  show "RequestAllTimer n \<in> set (timers (deliver_all s m pm c v))"
    using w m t by (auto simp: deliver_all_def Let_def waiting_def clearTimeout_def)
  show "filter (settles_all n) (settled (deliver_all s m pm c v)) = filter (settles_all n) (settled s)"
    using m by (simp add: deliver_all_def Let_def)
qed

lemma settle_other:
  assumes w: "waiting s n p" and pr: "map_of (promises s) m = Some promise"
    and x: "x = Resolved m v \<or> x = Rejected m e"
  shows "waiting (s\<lparr>timers := clearTimeout (sp_timeout promise) (timers s),
                    promises := AList.delete m (promises s),
                    settled := settled s @ [x]\<rparr>) n p
       \<and> filter (settles_all n) (settled s @ [x]) = filter (settles_all n) (settled s)"
proof -
  let ?s' = "s\<lparr>timers := clearTimeout (sp_timeout promise) (timers s),
                    promises := AList.delete m (promises s),
                    settled := settled s @ [x]\<rparr>"
  have "(m, promise) \<in> set (promises s)" using pr by (rule map_of_SomeD)
  then have t: "sp_timeout promise = None \<or> sp_timeout promise = Some (RequestTimer m)"
    using w unfolding waiting_def timers_owned_def by fastforce
  have wf: "ipc_wf ?s'" using w pr by (simp add: waiting_def resolve_promise_wf)
  have o: "timers_owned ?s'"
    by (rule owned_keep_all [of s]) (use w in \<open>auto simp: waiting_def dest: in_delete_cases\<close>)
  have "RequestAllTimer n \<in> set (timers ?s')"
    using w t by (auto simp: waiting_def clearTimeout_def)
  then show ?thesis
    using wf o w x by (auto simp: waiting_def)
qed

lemma waiting_sent: "waiting (s\<lparr>sent := x\<rparr>) n p = waiting s n p"
  by (simp add: waiting_def ipc_wf_def timers_owned_def)

lemma handle_request_waiting:
  assumes "waiting s n p"
  shows "waiting (snd (handle_request s k h d sc)) n p
       \<and> filter (settles_all n) (settled (snd (handle_request s k h d sc)))
           = filter (settles_all n) (settled s)"
proof -
  have fr: "snd (handle_request s k h d sc) = s\<lparr>sent := sent (snd (handle_request s k h d sc))\<rparr>"
    by (rule handle_request_frame)
  have "waiting (snd (handle_request s k h d sc)) n p"
    by (subst fr) (simp add: waiting_sent assms)
  moreover have "settled (snd (handle_request s k h d sc)) = settled s"
    by (subst fr) simp
  ultimately show ?thesis by simp
qed

lemma handleIncoming_other:
  assumes w: "waiting s n p" and r: "reply_of n (Incoming msg sc) = None"
  shows "waiting (snd (handleIncoming s msg sc)) n p
       \<and> filter (settles_all n) (settled (snd (handleIncoming s msg sc)))
           = filter (settles_all n) (settled s)"
proof -
  have wf: "ipc_wf (snd (handleIncoming s msg sc))" "timers_owned (snd (handleIncoming s msg sc))"
    using waiting_step_wf [OF w, of "Incoming msg sc"] by simp_all
  show ?thesis
  proof (cases msg)
    case (HandlerRequest k h d)
    show ?thesis
      using handle_request_waiting [OF w, of k h d sc] by (simp add: handleIncoming_def HandlerRequest)
  next
    case (HandlerRequestAll k h d)
    show ?thesis
      using handle_request_waiting [OF w, of k h d sc] by (simp add: handleIncoming_def HandlerRequestAll)
  next
    case (HandlerResponse k v src)
    show ?thesis
    proof (cases "map_of (pendingAll s) k")
      case None
      then show ?thesis
        using w settle_other [OF w, of k _ "Resolved k v" v]
        by (auto simp: handleIncoming_def HandlerResponse split: option.splits)
    next
      case (Some pm)
      show ?thesis
      proof (cases src)
        case None
        then show ?thesis
          using w settle_other [OF w, of k _ "Resolved k v" v]
          by (auto simp: handleIncoming_def HandlerResponse Some split: option.splits)
      next
        case (Some c)
        then have kn: "k \<noteq> n" using r by (auto simp: HandlerResponse split: if_splits)
        show ?thesis
          using wf deliver_other [OF w kn \<open>map_of (pendingAll s) k = Some pm\<close>, of c v] w
          by (simp add: handleIncoming_def HandlerResponse Some \<open>map_of (pendingAll s) k = Some pm\<close>
              waiting_def)
      qed
    qed
  next
    case (HandlerError k e src)
    show ?thesis
    proof (cases "map_of (pendingAll s) k")
      case None
      then show ?thesis
        using w settle_other [OF w, of k _ "Rejected k (error_text e)" _ "error_text e"]
        by (auto simp: handleIncoming_def HandlerError split: option.splits)
    next
      case (Some pm)
      show ?thesis
      proof (cases src)
        case None
        then show ?thesis
          using w settle_other [OF w, of k _ "Rejected k (error_text e)" _ "error_text e"]
          by (auto simp: handleIncoming_def HandlerError Some split: option.splits)
      next
        case (Some c)
        then have kn: "k \<noteq> n" using r by (auto simp: HandlerError split: if_splits)
        show ?thesis
          using wf deliver_other [OF w kn \<open>map_of (pendingAll s) k = Some pm\<close>,
              of c "VError (error_text e)"] w
          by (simp add: handleIncoming_def HandlerError Some \<open>map_of (pendingAll s) k = Some pm\<close>
              waiting_def)
      qed
    qed
  next
    case (OtherMessage k)
    then show ?thesis using w by (simp add: handleIncoming_def)
  qed
qed


lemma timer_fires_other:
  assumes w: "waiting s n p" and t: "t \<noteq> RequestAllTimer n"
  shows "waiting (timer_fires s t) n p
       \<and> filter (settles_all n) (settled (timer_fires s t)) = filter (settles_all n) (settled s)"
proof -
  have wf: "ipc_wf (timer_fires s t)" "timers_owned (timer_fires s t)"
    using waiting_step_wf [OF w, of "TimerFires t"] by simp_all
  have "map_of (pendingAll (timer_fires s t)) n = Some p"
    using w t
    by (auto simp: timer_fires_def Let_def waiting_def delete_conv' split: timer.splits option.splits)
  moreover have "RequestAllTimer n \<in> set (timers (timer_fires s t))"
    using w t
    by (auto simp: timer_fires_def Let_def waiting_def split: timer.splits option.splits)
  moreover have "filter (settles_all n) (settled (timer_fires s t)) = filter (settles_all n) (settled s)"
    using t
    by (auto simp: timer_fires_def Let_def split: timer.splits option.splits)
  ultimately show ?thesis using wf w by (simp add: waiting_def)
qed

lemma reply_of_cases:
  "reply_of n ev = Some (c, v) \<Longrightarrow>
   (\<exists>sc. ev = Incoming (HandlerResponse n v (Some c)) sc)
   \<or> (\<exists>sc e. ev = Incoming (HandlerError n e (Some c)) sc \<and> v = VError (error_text e))"
  by (cases "(n, ev)" rule: reply_of.cases) (auto split: if_splits)

lemma reply_step:
  "waiting s n p \<Longrightarrow> reply_of n ev = Some (c, v) \<Longrightarrow> ipc_step s ev = deliver_all s n p c v"
  by (auto dest!: reply_of_cases simp: handleIncoming_def waiting_def)

lemma step_reply_more:
  assumes w: "waiting s n p" and r: "reply_of n ev = Some (c, v)"
    and more: "\<not> int (length (AList.update c v (results p))) \<ge> expected p"
  shows "waiting (ipc_step s ev) n (p\<lparr>results := AList.update c v (results p)\<rparr>)
       \<and> filter (settles_all n) (settled (ipc_step s ev)) = filter (settles_all n) (settled s)"
proof -
  have wf: "ipc_wf (ipc_step s ev)" "timers_owned (ipc_step s ev)"
    using waiting_step_wf [OF w, of ev] by simp_all
  show ?thesis
    using wf w more unfolding reply_step [OF w r]
    by (simp add: waiting_def deliver_all_def Let_def update_conv')
qed

lemma step_reply_done:
  assumes w: "waiting s n p" and r: "reply_of n ev = Some (c, v)"
    and full: "int (length (AList.update c v (results p))) \<ge> expected p"
  shows "\<not> has_key (pendingAll (ipc_step s ev)) n
       \<and> filter (settles_all n) (settled (ipc_step s ev))
           = filter (settles_all n) (settled s) @ [ResolvedAll n (to_results (AList.update c v (results p)))]"
  using full unfolding reply_step [OF w r]
  by (simp add: deliver_all_def Let_def has_key_def delete_conv')

lemma step_timer:
  assumes w: "waiting s n p"
  shows "\<not> has_key (pendingAll (timer_fires s (RequestAllTimer n))) n
       \<and> filter (settles_all n) (settled (timer_fires s (RequestAllTimer n)))
           = filter (settles_all n) (settled s) @ [ResolvedAll n (to_results (results p))]"
  using w by (simp add: waiting_def timer_fires_def Let_def has_key_def delete_conv')

lemma no_entry_step:
  assumes "\<not> has_key (pendingAll s) n"
  shows "\<not> has_key (pendingAll (ipc_step s ev)) n
       \<and> filter (settles_all n) (settled (ipc_step s ev)) = filter (settles_all n) (settled s)"
proof (cases ev)
  case (Incoming msg sc)
  show ?thesis
  proof (cases msg)
    case (HandlerRequest k h d)
    have fr: "snd (handle_request s k h d sc) = s\<lparr>sent := sent (snd (handle_request s k h d sc))\<rparr>"
      by (rule handle_request_frame)
    have "pendingAll (snd (handle_request s k h d sc)) = pendingAll s"
      "settled (snd (handle_request s k h d sc)) = settled s"
      by (subst fr, simp)+
    then show ?thesis using assms by (simp add: Incoming HandlerRequest handleIncoming_def)
  next
    case (HandlerRequestAll k h d)
    have fr: "snd (handle_request s k h d sc) = s\<lparr>sent := sent (snd (handle_request s k h d sc))\<rparr>"
      by (rule handle_request_frame)
    have "pendingAll (snd (handle_request s k h d sc)) = pendingAll s"
      "settled (snd (handle_request s k h d sc)) = settled s"
      by (subst fr, simp)+
    then show ?thesis using assms by (simp add: Incoming HandlerRequestAll handleIncoming_def)
  next
    case (HandlerResponse k v src)
    then show ?thesis
      using assms
      by (auto simp: Incoming handleIncoming_def deliver_all_def Let_def has_key_def
          update_conv' delete_conv' split: option.splits)
  next
    case (HandlerError k e src)
    then show ?thesis
      using assms
      by (auto simp: Incoming handleIncoming_def deliver_all_def Let_def has_key_def
          update_conv' delete_conv' split: option.splits)
  next
    case (OtherMessage k)
    then show ?thesis using assms by (simp add: Incoming handleIncoming_def)
  qed
next
  case (TimerFires t)
  then show ?thesis
    using assms
    by (auto simp: timer_fires_def Let_def has_key_def delete_conv'
        split: timer.splits option.splits)
next
  case ClearPending
  have "filter (\<lambda>a. fst a = n) (pendingAll s) = []"
    using assms by (auto simp: has_key_def filter_empty_conv map_of_eq_None_iff)
  then show ?thesis
    by (simp add: ClearPending clearPending_def has_key_def filter_rejected_map
        filter_rejected_all_map)
qed

lemma no_entry_run:
  "\<not> has_key (pendingAll s) n \<Longrightarrow>
   \<not> has_key (pendingAll (ipc_run s evs)) n
   \<and> filter (settles_all n) (settled (ipc_run s evs)) = filter (settles_all n) (settled s)"
  unfolding ipc_run_def
proof (induction evs arbitrary: s)
  case Nil
  then show ?case by simp
next
  case (Cons ev evs)
  show ?case using Cons.IH [of "ipc_step s ev"] no_entry_step [OF Cons.prems, of ev] by simp
qed

lemma ipc_run_Cons: "ipc_run s (ev # evs) = ipc_run (ipc_step s ev) evs"
  by (simp add: ipc_run_def)

lemma waiting_run:
  "waiting s n p \<Longrightarrow> ClearPending \<notin> set evs \<Longrightarrow>
   filter (settles_all n) (settled (ipc_run s evs))
     = filter (settles_all n) (settled s)
       @ (case outcome_all n (results p) (expected p) evs of
            None \<Rightarrow> [] | Some rs \<Rightarrow> [ResolvedAll n rs])
   \<and> (case outcome_all n (results p) (expected p) evs of
        None \<Rightarrow> waiting (ipc_run s evs) n (p\<lparr>results := received n (results p) evs\<rparr>)
      | Some rs \<Rightarrow> \<not> has_key (pendingAll (ipc_run s evs)) n)"
proof (induction evs arbitrary: s p)
  case Nil
  then show ?case by (simp add: ipc_run_def)
next
  case (Cons ev evs)
  have evs: "ClearPending \<notin> set evs" and ev: "ev \<noteq> ClearPending" using Cons.prems(2) by auto
  show ?case
  proof (cases "ev = TimerFires (RequestAllTimer n)")
    case True
    then show ?thesis
      using step_timer [OF Cons.prems(1)]
        no_entry_run [of "timer_fires s (RequestAllTimer n)" n evs]
      by (auto simp: ipc_run_Cons split: option.splits)
  next
    case notimer: False
    show ?thesis
    proof (cases "reply_of n ev")
      case None
      have "waiting (ipc_step s ev) n p
          \<and> filter (settles_all n) (settled (ipc_step s ev)) = filter (settles_all n) (settled s)"
      proof (cases ev)
        case (Incoming msg sc)
        then show ?thesis using handleIncoming_other [OF Cons.prems(1), of msg sc] None by simp
      next
        case (TimerFires t)
        then show ?thesis using timer_fires_other [OF Cons.prems(1), of t] notimer by simp
      next
        case ClearPending
        then show ?thesis using ev by simp
      qed
      then show ?thesis
        using Cons.IH [of "ipc_step s ev" p] evs None notimer by (auto simp: ipc_run_Cons split: option.splits)
    next
      case (Some cv)
      obtain c v where cv: "cv = (c, v)" by (cases cv)
      show ?thesis
      proof (cases "int (length (AList.update c v (results p))) \<ge> expected p")
        case True
        then show ?thesis
          using step_reply_done [OF Cons.prems(1) Some [unfolded cv] True]
            no_entry_run [of "ipc_step s ev" n evs] Some notimer
          by (auto simp: ipc_run_Cons cv split: option.splits)
      next
        case False
        then show ?thesis
          using step_reply_more [OF Cons.prems(1) Some [unfolded cv] False]
            Cons.IH [of "ipc_step s ev" "p\<lparr>results := AList.update c v (results p)\<rparr>"]
            evs Some notimer
          by (auto simp: ipc_run_Cons cv split: option.splits)
      qed
    qed
  qed
qed


lemma outcome_all_timer:
  "\<exists>rs. outcome_all n seed ex (evs @ [TimerFires (RequestAllTimer n)]) = Some rs"
  by (induction evs arbitrary: seed) (auto simp: Let_def split: option.splits)

lemma outcome_all_timer_received:
  "outcome_all n seed ex evs = None \<Longrightarrow>
   outcome_all n seed ex (evs @ [TimerFires (RequestAllTimer n)]) = Some (to_results (received n seed evs))"
  by (induction evs arbitrary: seed) (auto simp: Let_def split: option.splits if_splits)

lemma length_update_le: "length (AList.update c v rs) \<le> Suc (length rs)"
  by (induction rs) auto

lemma to_results_keys: "map clusterId (to_results rs) = map fst rs"
  by (induction rs) (auto simp: to_results_def to_result_def split: jsval.splits)

lemma outcome_all_full:
  "TimerFires (RequestAllTimer n) \<notin> set evs \<Longrightarrow> outcome_all n seed ex evs = Some rs \<Longrightarrow>
   int (length seed) < ex \<Longrightarrow> distinct (map fst seed) \<Longrightarrow>
   int (length rs) = ex \<and> distinct (map clusterId rs)"
proof (induction evs arbitrary: seed)
  case Nil
  then show ?case by simp
next
  case (Cons ev evs)
  show ?case
  proof (cases "reply_of n ev")
    case None
    then show ?thesis using Cons by (auto split: if_splits)
  next
    case (Some cv)
    obtain c v where cv: "cv = (c, v)" by (cases cv)
    let ?rs' = "AList.update c v seed"
    have d: "distinct (map fst ?rs')" using Cons.prems(4) by (simp add: distinct_update)
    have l: "length ?rs' \<le> Suc (length seed)" by (rule length_update_le)
    show ?thesis
    proof (cases "int (length ?rs') \<ge> ex")
      case True
      then have "rs = to_results ?rs'" using Cons.prems Some cv by (auto simp: Let_def)
      moreover have "int (length ?rs') = ex" using True l Cons.prems(3) by linarith
      ultimately show ?thesis using d by (simp add: to_results_keys) (simp add: to_results_def)
    next
      case False
      then have "outcome_all n ?rs' ex evs = Some rs" using Cons.prems Some cv by (auto simp: Let_def)
      then show ?thesis using Cons.IH [of ?rs'] Cons.prems(1) False d by simp
    qed
  qed
qed

lemma rc_get_to_results:
  "rc_get (to_results rs) c = map_option (to_result c) (map_of rs c)"
  by (induction rs) (auto simp: rc_get_def to_results_def to_result_def split: jsval.splits)

lemma initialResults_distinct:
  "initialResults s h d = Fulfilled seed \<Longrightarrow> distinct (map fst seed) \<and> length seed \<le> 1"
  by (auto simp: initialResults_def split: option.splits handler_outcome.splits sum.splits)

lemma requestAll_pending:
  assumes wf: "ipc_wf s" and o: "timers_owned s"
    and tc: "totalClusters s = Some tot" "2 \<le> tot"
    and ir: "initialResults s h d = Fulfilled seed"
    and snd_ok: "send s (HandlerRequestAll n h d) = None" and t: "0 < timeout"
  defines "p \<equiv> \<lparr>results = seed, expected = tot - 1 + int (length seed),
                  pa_timeout = Some (RequestAllTimer n)\<rparr>"
  shows "fst (requestAll s n h d timeout) = Pending"
    and "waiting (snd (requestAll s n h d timeout)) n p"
    and "settled (snd (requestAll s n h d timeout)) = settled s"
    and "sent (snd (requestAll s n h d timeout)) = sent s @ [HandlerRequestAll n h d]"
proof -
  let ?s1 = "s\<lparr>sent := sent s @ [HandlerRequestAll n h d],
               timers := timers s @ [RequestAllTimer n],
               pendingAll := AList.update n p (pendingAll s)\<rparr>"
  have r: "requestAll s n h d timeout = (Pending, ?s1)"
    using tc snd_ok t by (simp add: requestAll_def Let_def do_send_def p_def ir)
  have "ipc_wf ?s1"
    using wf by (auto simp: ipc_wf_def distinct_update)
  moreover have "timers_owned ?s1"
    using o unfolding timers_owned_def by (auto dest!: in_update_cases simp: p_def)
  ultimately have "waiting ?s1 n p"
    by (simp add: waiting_def update_conv' p_def)
  then show "waiting (snd (requestAll s n h d timeout)) n p" by (simp add: r)
  show "fst (requestAll s n h d timeout) = Pending" by (simp add: r)
  show "settled (snd (requestAll s n h d timeout)) = settled s" by (simp add: r)
  show "sent (snd (requestAll s n h d timeout)) = sent s @ [HandlerRequestAll n h d]"
    by (simp add: r)
qed

lemma ipc_run_append: "ipc_run s (xs @ ys) = ipc_run (ipc_run s xs) ys"
  by (simp add: ipc_run_def)

lemma filter_key_single:
  "distinct (map fst ps) \<Longrightarrow> map_of ps n = Some p \<Longrightarrow> filter (\<lambda>a. fst a = n) ps = [(n, p)]"
proof (induction ps)
  case Nil
  then show ?case by simp
next
  case (Cons a ps)
  show ?case
  proof (cases "fst a = n")
    case True
    then have "n \<notin> fst ` set ps" using Cons.prems(1) by auto
    then have "filter (\<lambda>a. fst a = n) ps = []" by (auto simp: filter_empty_conv)
    then show ?thesis using True Cons.prems(2) by (cases a) auto
  next
    case False
    then show ?thesis using Cons by (cases a) auto
  qed
qed

text \<open>\<open>clearPending\<close> rejects a waiting call and removes its entry.\<close>

lemma clearPending_waiting:
  assumes w: "waiting s n p"
  shows "filter (settles_all n) (settled (clearPending s))
           = filter (settles_all n) (settled s) @ [RejectedAll n ''IPC handler cleared'']"
    and "\<not> has_key (pendingAll (clearPending s)) n"
proof -
  have "filter (\<lambda>a. fst a = n) (pendingAll s) = [(n, p)]"
    using w by (intro filter_key_single) (simp_all add: waiting_def ipc_wf_def)
  then show "filter (settles_all n) (settled (clearPending s))
           = filter (settles_all n) (settled s) @ [RejectedAll n ''IPC handler cleared'']"
    by (simp add: clearPending_def filter_rejected_map filter_rejected_all_map)
  show "\<not> has_key (pendingAll (clearPending s)) n"
    by (simp add: clearPending_def has_key_def)
qed

text \<open>
  Claim C2, amended. Let \<open>requestAll\<close> be called with a positive timeout in a well-formed
  state. Without a cluster count, or with the count zero, it is fulfilled at once with
  the empty collection. Otherwise the caller's own handler, if registered, is awaited
  first. If its promise does not settle, the call stays pending in the unchanged state:
  nothing is sent, no timer is set, and no later event settles the call (its nonce
  being new). Let the local
  handler have settled, with the seed it leaves (the case that it threw \<open>null\<close> or
  \<open>undefined\<close> is left aside here). With one cluster the call is fulfilled at once with
  the seed. With more, if \<open>send\<close> rejects with an error the call is rejected with that
  error and nothing settles it later; if \<open>send\<close> succeeds the call is pending, and in the
  course of any further events without \<open>clearPending\<close> the promise stored under its
  nonce is settled exactly as the specification of the broadcast says (\<open>outcome_all\<close>):
  not at all so far, or once, by a resolution and never a rejection. Once its timer has
  fired it has been resolved exactly once; if it was still waiting then, the collection
  holds exactly the entries received so far. When it resolves before the timer, the
  collection has one entry for each expected unit, with distinct ids. A \<open>clearPending\<close>
  that comes while the call waits rejects it with \<open>IPC handler cleared\<close>, and that is
  its only settlement. A \<open>HandlerError\<close> reply contributes the entry of its unit with
  status \<open>error\<close> and the error's message.
\<close>

theorem C2_requestAll_resolves:
  "ipc_wf s \<Longrightarrow> timers_owned s \<Longrightarrow> tot = (case totalClusters s of None \<Rightarrow> 0 | Some t \<Rightarrow> t) \<Longrightarrow>
   0 < timeout \<Longrightarrow> msg = HandlerRequestAll n h d \<Longrightarrow>
   s' = ipc_run (snd (requestAll s n h d timeout)) evs \<Longrightarrow>
     (tot = 0 \<longrightarrow> requestAll s n h d timeout = (Fulfilled [], s))
   \<and> (tot \<noteq> 0 \<and> initialResults s h d = Pending \<longrightarrow>
         requestAll s n h d timeout = (Pending, s)
       \<and> (\<not> has_key (pendingAll s) n \<longrightarrow>
             filter (settles_all n) (settled s') = filter (settles_all n) (settled s)))
   \<and> (\<forall>seed. tot \<noteq> 0 \<and> initialResults s h d = Fulfilled seed \<longrightarrow>
         (tot \<le> 1 \<longrightarrow> requestAll s n h d timeout = (Fulfilled (to_results seed), s))
       \<and> (\<forall>e. 2 \<le> tot \<and> send s msg = Some e \<longrightarrow>
             requestAll s n h d timeout = (RejectedWith e, s\<lparr>sent := sent s @ [msg]\<rparr>)
           \<and> (\<not> has_key (pendingAll s) n \<longrightarrow>
                 filter (settles_all n) (settled s') = filter (settles_all n) (settled s)))
       \<and> (2 \<le> tot \<and> send s msg = None \<longrightarrow>
             fst (requestAll s n h d timeout) = Pending
           \<and> sent (snd (requestAll s n h d timeout)) = sent s @ [msg]
           \<and> (ClearPending \<notin> set evs \<longrightarrow>
                 filter (settles_all n) (settled s')
                   = filter (settles_all n) (settled s)
                     @ (case outcome_all n seed (tot - 1 + int (length seed)) evs of
                          None \<Rightarrow> [] | Some rs \<Rightarrow> [ResolvedAll n rs])
               \<and> (\<exists>rs. filter (settles_all n) (settled (timer_fires s' (RequestAllTimer n)))
                         = filter (settles_all n) (settled s) @ [ResolvedAll n rs])
               \<and> (outcome_all n seed (tot - 1 + int (length seed)) evs = None \<longrightarrow>
                     filter (settles_all n) (settled (timer_fires s' (RequestAllTimer n)))
                       = filter (settles_all n) (settled s)
                         @ [ResolvedAll n (to_results (received n seed evs))])
               \<and> (\<forall>rs. TimerFires (RequestAllTimer n) \<notin> set evs
                        \<and> outcome_all n seed (tot - 1 + int (length seed)) evs = Some rs \<longrightarrow>
                     int (length rs) = tot - 1 + int (length seed) \<and> distinct (map clusterId rs)))
           \<and> (\<forall>evs1 evs2. evs = evs1 @ ClearPending # evs2 \<and> ClearPending \<notin> set evs1
                  \<and> outcome_all n seed (tot - 1 + int (length seed)) evs1 = None \<longrightarrow>
                 filter (settles_all n) (settled s')
                   = filter (settles_all n) (settled s) @ [RejectedAll n ''IPC handler cleared''])))
   \<and> (\<forall>c e rs. reply_of n (Incoming (HandlerError n e (Some c)) sc) = Some (c, VError (error_text e))
         \<and> rc_get (to_results (AList.update c (VError (error_text e)) rs)) c
             = Some \<lparr>clusterId = c, status = Error, data = VUndefined, error = Some (error_text e)\<rparr>)"
proof -
  assume wf: "ipc_wf s" and o: "timers_owned s"
    and tot_def: "tot = (case totalClusters s of None \<Rightarrow> 0 | Some t \<Rightarrow> t)"
    and t: "0 < timeout" and msg: "msg = HandlerRequestAll n h d"
    and s': "s' = ipc_run (snd (requestAll s n h d timeout)) evs"
  have A: "tot = 0 \<longrightarrow> requestAll s n h d timeout = (Fulfilled [], s)"
    using tot_def by (simp add: requestAll_def)
  have H: "requestAll s n h d timeout = (Pending, s)
       \<and> (\<not> has_key (pendingAll s) n \<longrightarrow>
             filter (settles_all n) (settled s') = filter (settles_all n) (settled s))"
    if nz: "tot \<noteq> 0" and hang: "initialResults s h d = Pending"
  proof -
    have r: "requestAll s n h d timeout = (Pending, s)"
      using tot_def nz hang by (simp add: requestAll_def Let_def)
    show ?thesis using no_entry_run [of s n evs] by (simp add: r s')
  qed
  have D: "\<forall>c e rs. reply_of n (Incoming (HandlerError n e (Some c)) sc) = Some (c, VError (error_text e))
         \<and> rc_get (to_results (AList.update c (VError (error_text e)) rs)) c
             = Some \<lparr>clusterId = c, status = Error, data = VUndefined, error = Some (error_text e)\<rparr>"
    by (simp add: rc_get_to_results update_conv' to_result_def)
  have S: "(tot \<le> 1 \<longrightarrow> requestAll s n h d timeout = (Fulfilled (to_results seed), s))
       \<and> (\<forall>e. 2 \<le> tot \<and> send s msg = Some e \<longrightarrow>
             requestAll s n h d timeout = (RejectedWith e, s\<lparr>sent := sent s @ [msg]\<rparr>)
           \<and> (\<not> has_key (pendingAll s) n \<longrightarrow>
                 filter (settles_all n) (settled s') = filter (settles_all n) (settled s)))
       \<and> (2 \<le> tot \<and> send s msg = None \<longrightarrow>
             fst (requestAll s n h d timeout) = Pending
           \<and> sent (snd (requestAll s n h d timeout)) = sent s @ [msg]
           \<and> (ClearPending \<notin> set evs \<longrightarrow>
                 filter (settles_all n) (settled s')
                   = filter (settles_all n) (settled s)
                     @ (case outcome_all n seed (tot - 1 + int (length seed)) evs of
                          None \<Rightarrow> [] | Some rs \<Rightarrow> [ResolvedAll n rs])
               \<and> (\<exists>rs. filter (settles_all n) (settled (timer_fires s' (RequestAllTimer n)))
                         = filter (settles_all n) (settled s) @ [ResolvedAll n rs])
               \<and> (outcome_all n seed (tot - 1 + int (length seed)) evs = None \<longrightarrow>
                     filter (settles_all n) (settled (timer_fires s' (RequestAllTimer n)))
                       = filter (settles_all n) (settled s)
                         @ [ResolvedAll n (to_results (received n seed evs))])
               \<and> (\<forall>rs. TimerFires (RequestAllTimer n) \<notin> set evs
                        \<and> outcome_all n seed (tot - 1 + int (length seed)) evs = Some rs \<longrightarrow>
                     int (length rs) = tot - 1 + int (length seed) \<and> distinct (map clusterId rs)))
           \<and> (\<forall>evs1 evs2. evs = evs1 @ ClearPending # evs2 \<and> ClearPending \<notin> set evs1
                  \<and> outcome_all n seed (tot - 1 + int (length seed)) evs1 = None \<longrightarrow>
                 filter (settles_all n) (settled s')
                   = filter (settles_all n) (settled s) @ [RejectedAll n ''IPC handler cleared'']))"
    if nz: "tot \<noteq> 0" and ir: "initialResults s h d = Fulfilled seed" for seed
  proof -
    define ex where "ex = tot - 1 + int (length seed)"
    have B: "tot \<le> 1 \<longrightarrow> requestAll s n h d timeout = (Fulfilled (to_results seed), s)"
      using tot_def nz by (simp add: requestAll_def Let_def ir)
    have R: "requestAll s n h d timeout = (RejectedWith e, s\<lparr>sent := sent s @ [msg]\<rparr>)
           \<and> (\<not> has_key (pendingAll s) n \<longrightarrow>
                 filter (settles_all n) (settled s') = filter (settles_all n) (settled s))"
      if two: "2 \<le> tot" and rej: "send s msg = Some e" for e
    proof -
      have r: "requestAll s n h d timeout = (RejectedWith e, s\<lparr>sent := sent s @ [msg]\<rparr>)"
        using tot_def two rej by (simp add: requestAll_def Let_def ir do_send_def msg)
      show ?thesis
        using no_entry_run [of "s\<lparr>sent := sent s @ [msg]\<rparr>" n evs] by (simp add: r s')
    qed
    have C: "fst (requestAll s n h d timeout) = Pending
           \<and> sent (snd (requestAll s n h d timeout)) = sent s @ [msg]
           \<and> (ClearPending \<notin> set evs \<longrightarrow>
                 filter (settles_all n) (settled s')
                   = filter (settles_all n) (settled s)
                     @ (case outcome_all n seed ex evs of
                          None \<Rightarrow> [] | Some rs \<Rightarrow> [ResolvedAll n rs])
               \<and> (\<exists>rs. filter (settles_all n) (settled (timer_fires s' (RequestAllTimer n)))
                         = filter (settles_all n) (settled s) @ [ResolvedAll n rs])
               \<and> (outcome_all n seed ex evs = None \<longrightarrow>
                     filter (settles_all n) (settled (timer_fires s' (RequestAllTimer n)))
                       = filter (settles_all n) (settled s)
                         @ [ResolvedAll n (to_results (received n seed evs))])
               \<and> (\<forall>rs. TimerFires (RequestAllTimer n) \<notin> set evs
                        \<and> outcome_all n seed ex evs = Some rs \<longrightarrow>
                     int (length rs) = ex \<and> distinct (map clusterId rs)))
           \<and> (\<forall>evs1 evs2. evs = evs1 @ ClearPending # evs2 \<and> ClearPending \<notin> set evs1
                  \<and> outcome_all n seed ex evs1 = None \<longrightarrow>
                 filter (settles_all n) (settled s')
                   = filter (settles_all n) (settled s) @ [RejectedAll n ''IPC handler cleared''])"
      if two: "2 \<le> tot" and snd_ok0: "send s msg = None"
    proof -
      let ?p = "\<lparr>results = seed, expected = ex, pa_timeout = Some (RequestAllTimer n)\<rparr>"
      let ?s1 = "snd (requestAll s n h d timeout)"
      have snd_ok: "send s (HandlerRequestAll n h d) = None" using snd_ok0 by (simp add: msg)
      have tc: "totalClusters s = Some tot" using tot_def two by (cases "totalClusters s") auto
      have pend: "fst (requestAll s n h d timeout) = Pending"
        and w: "waiting ?s1 n ?p" and lg: "settled ?s1 = settled s"
        and snt: "sent ?s1 = sent s @ [msg]"
        using requestAll_pending [OF wf o tc two ir snd_ok t] by (simp_all add: ex_def msg)
      have quiet: "filter (settles_all n) (settled s')
                   = filter (settles_all n) (settled s)
                     @ (case outcome_all n seed ex evs of
                          None \<Rightarrow> [] | Some rs \<Rightarrow> [ResolvedAll n rs])
               \<and> (\<exists>rs. filter (settles_all n) (settled (timer_fires s' (RequestAllTimer n)))
                         = filter (settles_all n) (settled s) @ [ResolvedAll n rs])
               \<and> (outcome_all n seed ex evs = None \<longrightarrow>
                     filter (settles_all n) (settled (timer_fires s' (RequestAllTimer n)))
                       = filter (settles_all n) (settled s)
                         @ [ResolvedAll n (to_results (received n seed evs))])
               \<and> (\<forall>rs. TimerFires (RequestAllTimer n) \<notin> set evs
                        \<and> outcome_all n seed ex evs = Some rs \<longrightarrow>
                     int (length rs) = ex \<and> distinct (map clusterId rs))"
        if evs: "ClearPending \<notin> set evs"
      proof -
        have run: "filter (settles_all n) (settled s')
               = filter (settles_all n) (settled s)
                 @ (case outcome_all n seed ex evs of None \<Rightarrow> [] | Some rs \<Rightarrow> [ResolvedAll n rs])"
          and after: "case outcome_all n seed ex evs of
                  None \<Rightarrow> waiting s' n (?p\<lparr>results := received n seed evs\<rparr>)
                | Some rs \<Rightarrow> \<not> has_key (pendingAll s') n"
          using waiting_run [OF w evs] by (auto simp: s' lg split: option.splits)
        have timer: "filter (settles_all n) (settled (timer_fires s' (RequestAllTimer n)))
                   = filter (settles_all n) (settled s) @ [ResolvedAll n (to_results (received n seed evs))]"
          if "outcome_all n seed ex evs = None"
          using step_timer [of s' n "?p\<lparr>results := received n seed evs\<rparr>"] after run that
          by (auto split: option.splits)
        have timer': "\<exists>rs. filter (settles_all n) (settled (timer_fires s' (RequestAllTimer n)))
                     = filter (settles_all n) (settled s) @ [ResolvedAll n rs]"
        proof (cases "outcome_all n seed ex evs")
          case None
          then show ?thesis using timer by blast
        next
          case (Some rs)
          then have "\<not> has_key (pendingAll s') n" using after by simp
          then show ?thesis
            using no_entry_step [of s' n "TimerFires (RequestAllTimer n)"] run Some by simp
        qed
        have "int (length seed) < ex" using two by (simp add: ex_def)
        then have full: "\<forall>rs. TimerFires (RequestAllTimer n) \<notin> set evs \<and> outcome_all n seed ex evs = Some rs \<longrightarrow>
                 int (length rs) = ex \<and> distinct (map clusterId rs)"
          using outcome_all_full [of n evs seed ex] initialResults_distinct [OF ir]
          by auto
        show ?thesis using run timer timer' full by blast
      qed
      have cleared: "filter (settles_all n) (settled s')
                   = filter (settles_all n) (settled s) @ [RejectedAll n ''IPC handler cleared'']"
        if split: "evs = evs1 @ ClearPending # evs2" and e1: "ClearPending \<notin> set evs1"
          and out: "outcome_all n seed ex evs1 = None" for evs1 evs2
      proof -
        let ?s2 = "ipc_run ?s1 evs1"
        have w2: "waiting ?s2 n (?p\<lparr>results := received n seed evs1\<rparr>)"
          and l2: "filter (settles_all n) (settled ?s2) = filter (settles_all n) (settled s)"
          using waiting_run [OF w e1] out by (simp_all add: lg)
        have s3: "s' = ipc_run (clearPending ?s2) evs2"
          by (simp add: s' split ipc_run_append ipc_run_Cons)
        show ?thesis
          using clearPending_waiting [OF w2]
            no_entry_run [of "clearPending ?s2" n evs2]
          by (simp add: s3 l2)
      qed
      show ?thesis using pend snt quiet cleared by blast
    qed
    have R': "\<forall>e. 2 \<le> tot \<and> send s msg = Some e \<longrightarrow>
             requestAll s n h d timeout = (RejectedWith e, s\<lparr>sent := sent s @ [msg]\<rparr>)
           \<and> (\<not> has_key (pendingAll s) n \<longrightarrow>
                 filter (settles_all n) (settled s') = filter (settles_all n) (settled s))"
      using R by blast
    note C' = C [unfolded ex_def]
    show ?thesis
    proof (intro conjI)
      show "tot \<le> 1 \<longrightarrow> requestAll s n h d timeout = (Fulfilled (to_results seed), s)"
        by (rule B)
    next
      show "\<forall>e. 2 \<le> tot \<and> send s msg = Some e \<longrightarrow>
             requestAll s n h d timeout = (RejectedWith e, s\<lparr>sent := sent s @ [msg]\<rparr>)
           \<and> (\<not> has_key (pendingAll s) n \<longrightarrow>
                 filter (settles_all n) (settled s') = filter (settles_all n) (settled s))"
        by (rule R')
    next
      show "2 \<le> tot \<and> send s msg = None \<longrightarrow>
             fst (requestAll s n h d timeout) = Pending
           \<and> sent (snd (requestAll s n h d timeout)) = sent s @ [msg]
           \<and> (ClearPending \<notin> set evs \<longrightarrow>
                 filter (settles_all n) (settled s')
                   = filter (settles_all n) (settled s)
                     @ (case outcome_all n seed (tot - 1 + int (length seed)) evs of
                          None \<Rightarrow> [] | Some rs \<Rightarrow> [ResolvedAll n rs])
               \<and> (\<exists>rs. filter (settles_all n) (settled (timer_fires s' (RequestAllTimer n)))
                         = filter (settles_all n) (settled s) @ [ResolvedAll n rs])
               \<and> (outcome_all n seed (tot - 1 + int (length seed)) evs = None \<longrightarrow>
                     filter (settles_all n) (settled (timer_fires s' (RequestAllTimer n)))
                       = filter (settles_all n) (settled s)
                         @ [ResolvedAll n (to_results (received n seed evs))])
               \<and> (\<forall>rs. TimerFires (RequestAllTimer n) \<notin> set evs
                        \<and> outcome_all n seed (tot - 1 + int (length seed)) evs = Some rs \<longrightarrow>
                     int (length rs) = tot - 1 + int (length seed) \<and> distinct (map clusterId rs)))
           \<and> (\<forall>evs1 evs2. evs = evs1 @ ClearPending # evs2 \<and> ClearPending \<notin> set evs1
                  \<and> outcome_all n seed (tot - 1 + int (length seed)) evs1 = None \<longrightarrow>
                 filter (settles_all n) (settled s')
                   = filter (settles_all n) (settled s) @ [RejectedAll n ''IPC handler cleared''])"
      proof (intro impI, elim conjE)
        assume a: "2 \<le> tot" and b: "send s msg = None"
        show "fst (requestAll s n h d timeout) = Pending
           \<and> sent (snd (requestAll s n h d timeout)) = sent s @ [msg]
           \<and> (ClearPending \<notin> set evs \<longrightarrow>
                 filter (settles_all n) (settled s')
                   = filter (settles_all n) (settled s)
                     @ (case outcome_all n seed (tot - 1 + int (length seed)) evs of
                          None \<Rightarrow> [] | Some rs \<Rightarrow> [ResolvedAll n rs])
               \<and> (\<exists>rs. filter (settles_all n) (settled (timer_fires s' (RequestAllTimer n)))
                         = filter (settles_all n) (settled s) @ [ResolvedAll n rs])
               \<and> (outcome_all n seed (tot - 1 + int (length seed)) evs = None \<longrightarrow>
                     filter (settles_all n) (settled (timer_fires s' (RequestAllTimer n)))
                       = filter (settles_all n) (settled s)
                         @ [ResolvedAll n (to_results (received n seed evs))])
               \<and> (\<forall>rs. TimerFires (RequestAllTimer n) \<notin> set evs
                        \<and> outcome_all n seed (tot - 1 + int (length seed)) evs = Some rs \<longrightarrow>
                     int (length rs) = tot - 1 + int (length seed) \<and> distinct (map clusterId rs)))
           \<and> (\<forall>evs1 evs2. evs = evs1 @ ClearPending # evs2 \<and> ClearPending \<notin> set evs1
                  \<and> outcome_all n seed (tot - 1 + int (length seed)) evs1 = None \<longrightarrow>
                 filter (settles_all n) (settled s')
                   = filter (settles_all n) (settled s) @ [RejectedAll n ''IPC handler cleared''])"
          by (rule C' [OF a b])
      qed
    qed
  qed
  have S': "\<forall>seed. tot \<noteq> 0 \<and> initialResults s h d = Fulfilled seed \<longrightarrow>
         (tot \<le> 1 \<longrightarrow> requestAll s n h d timeout = (Fulfilled (to_results seed), s))
       \<and> (\<forall>e. 2 \<le> tot \<and> send s msg = Some e \<longrightarrow>
             requestAll s n h d timeout = (RejectedWith e, s\<lparr>sent := sent s @ [msg]\<rparr>)
           \<and> (\<not> has_key (pendingAll s) n \<longrightarrow>
                 filter (settles_all n) (settled s') = filter (settles_all n) (settled s)))
       \<and> (2 \<le> tot \<and> send s msg = None \<longrightarrow>
             fst (requestAll s n h d timeout) = Pending
           \<and> sent (snd (requestAll s n h d timeout)) = sent s @ [msg]
           \<and> (ClearPending \<notin> set evs \<longrightarrow>
                 filter (settles_all n) (settled s')
                   = filter (settles_all n) (settled s)
                     @ (case outcome_all n seed (tot - 1 + int (length seed)) evs of
                          None \<Rightarrow> [] | Some rs \<Rightarrow> [ResolvedAll n rs])
               \<and> (\<exists>rs. filter (settles_all n) (settled (timer_fires s' (RequestAllTimer n)))
                         = filter (settles_all n) (settled s) @ [ResolvedAll n rs])
               \<and> (outcome_all n seed (tot - 1 + int (length seed)) evs = None \<longrightarrow>
                     filter (settles_all n) (settled (timer_fires s' (RequestAllTimer n)))
                       = filter (settles_all n) (settled s)
                         @ [ResolvedAll n (to_results (received n seed evs))])
               \<and> (\<forall>rs. TimerFires (RequestAllTimer n) \<notin> set evs
                        \<and> outcome_all n seed (tot - 1 + int (length seed)) evs = Some rs \<longrightarrow>
                     int (length rs) = tot - 1 + int (length seed) \<and> distinct (map clusterId rs)))
           \<and> (\<forall>evs1 evs2. evs = evs1 @ ClearPending # evs2 \<and> ClearPending \<notin> set evs1
                  \<and> outcome_all n seed (tot - 1 + int (length seed)) evs1 = None \<longrightarrow>
                 filter (settles_all n) (settled s')
                   = filter (settles_all n) (settled s) @ [RejectedAll n ''IPC handler cleared'']))"
  proof (intro allI impI, elim conjE)
    fix seed
    assume a: "tot \<noteq> 0" and b: "initialResults s h d = Fulfilled seed"
    show "(tot \<le> 1 \<longrightarrow> requestAll s n h d timeout = (Fulfilled (to_results seed), s))
       \<and> (\<forall>e. 2 \<le> tot \<and> send s msg = Some e \<longrightarrow>
             requestAll s n h d timeout = (RejectedWith e, s\<lparr>sent := sent s @ [msg]\<rparr>)
           \<and> (\<not> has_key (pendingAll s) n \<longrightarrow>
                 filter (settles_all n) (settled s') = filter (settles_all n) (settled s)))
       \<and> (2 \<le> tot \<and> send s msg = None \<longrightarrow>
             fst (requestAll s n h d timeout) = Pending
           \<and> sent (snd (requestAll s n h d timeout)) = sent s @ [msg]
           \<and> (ClearPending \<notin> set evs \<longrightarrow>
                 filter (settles_all n) (settled s')
                   = filter (settles_all n) (settled s)
                     @ (case outcome_all n seed (tot - 1 + int (length seed)) evs of
                          None \<Rightarrow> [] | Some rs \<Rightarrow> [ResolvedAll n rs])
               \<and> (\<exists>rs. filter (settles_all n) (settled (timer_fires s' (RequestAllTimer n)))
                         = filter (settles_all n) (settled s) @ [ResolvedAll n rs])
               \<and> (outcome_all n seed (tot - 1 + int (length seed)) evs = None \<longrightarrow>
                     filter (settles_all n) (settled (timer_fires s' (RequestAllTimer n)))
                       = filter (settles_all n) (settled s)
                         @ [ResolvedAll n (to_results (received n seed evs))])
               \<and> (\<forall>rs. TimerFires (RequestAllTimer n) \<notin> set evs
                        \<and> outcome_all n seed (tot - 1 + int (length seed)) evs = Some rs \<longrightarrow>
                     int (length rs) = tot - 1 + int (length seed) \<and> distinct (map clusterId rs)))
           \<and> (\<forall>evs1 evs2. evs = evs1 @ ClearPending # evs2 \<and> ClearPending \<notin> set evs1
                  \<and> outcome_all n seed (tot - 1 + int (length seed)) evs1 = None \<longrightarrow>
                 filter (settles_all n) (settled s')
                   = filter (settles_all n) (settled s) @ [RejectedAll n ''IPC handler cleared'']))"
      by (rule S [OF a b])
  qed
  have H': "tot \<noteq> 0 \<and> initialResults s h d = Pending \<longrightarrow>
         requestAll s n h d timeout = (Pending, s)
       \<and> (\<not> has_key (pendingAll s) n \<longrightarrow>
             filter (settles_all n) (settled s') = filter (settles_all n) (settled s))"
    using H by blast
  show ?thesis by (intro conjI A H' S' D)
qed

text \<open>
  Claim C2 as stated fails: with a positive timeout the promise is rejected when \<open>send\<close>
  rejects (\<open>await this.send(...)\<close> in \<open>requestAll\<close>), and it is rejected by
  \<open>clearPending\<close> while it waits. And it neither resolves nor rejects when the caller's
  own handler does not settle: the handler is awaited before the message is sent and
  before the timer is set, so the call stays pending whatever comes later, also in a
  fleet of one cluster.
\<close>

theorem C2_requestAll_counterexample:
  "fst (requestAll ipc_example_closed ''n'' ''ping'' VNull 30000)
     = RejectedWith ''No process to send IPC message.''
   \<and> settled (ipc_run (snd (requestAll ipc_example ''n'' ''ping'' VNull 30000)) [ClearPending])
     = [RejectedAll ''n'' ''IPC handler cleared'']
   \<and> requestAll ipc_example_odd ''n'' ''hang'' VNull 30000 = (Pending, ipc_example_odd)
   \<and> timers ipc_example_odd = [] \<and> sent ipc_example_odd = []
   \<and> settled (ipc_run (snd (requestAll ipc_example_odd ''n'' ''hang'' VNull 30000))
        [Incoming (HandlerResponse ''n'' (VNum 5) (Some 1)) None,
         Incoming (HandlerResponse ''n'' (VNum 6) (Some 2)) None,
         TimerFires (RequestAllTimer ''n'')]) = []
   \<and> requestAll (ipc_example_odd\<lparr>totalClusters := Some 1\<rparr>) ''n'' ''hang'' VNull 30000
     = (Pending, ipc_example_odd\<lparr>totalClusters := Some 1\<rparr>)"
proof -
  have a: "fst (requestAll ipc_example_closed ''n'' ''ping'' VNull 30000)
     = RejectedWith ''No process to send IPC message.''"
    by code_simp
  have b: "settled (ipc_run (snd (requestAll ipc_example ''n'' ''ping'' VNull 30000)) [ClearPending])
     = [RejectedAll ''n'' ''IPC handler cleared'']"
    by code_simp
  have ir: "initialResults ipc_example_odd ''hang'' VNull = Pending"
    "initialResults (ipc_example_odd\<lparr>totalClusters := Some 1\<rparr>) ''hang'' VNull = Pending"
    by (simp_all add: initialResults_def ipc_example_odd_def)
  have tc: "totalClusters ipc_example_odd = Some 3"
    by (simp add: ipc_example_odd_def ipc_example_def)
  have c: "requestAll ipc_example_odd ''n'' ''hang'' VNull 30000 = (Pending, ipc_example_odd)"
    by (simp add: requestAll_def ir tc)
  have d: "timers ipc_example_odd = []" "sent ipc_example_odd = []"
    by (simp_all add: ipc_example_odd_def ipc_example_def)
  have e: "settled (ipc_run (snd (requestAll ipc_example_odd ''n'' ''hang'' VNull 30000))
        [Incoming (HandlerResponse ''n'' (VNum 5) (Some 1)) None,
         Incoming (HandlerResponse ''n'' (VNum 6) (Some 2)) None,
         TimerFires (RequestAllTimer ''n'')]) = []"
    by code_simp
  have f: "requestAll (ipc_example_odd\<lparr>totalClusters := Some 1\<rparr>) ''n'' ''hang'' VNull 30000
     = (Pending, ipc_example_odd\<lparr>totalClusters := Some 1\<rparr>)"
    by (simp add: requestAll_def ir)
  show ?thesis by (intro conjI a b c d e f)
qed

text \<open>
  A local handler that throws \<open>null\<close>: \<open>requestAll\<close> is rejected with the \<open>TypeError\<close>
  of its \<open>catch\<close> block, in the unchanged state, whatever the number of clusters.
\<close>

lemma requestAll_null_throw:
  "requestAll ipc_example_odd ''n'' ''null'' VNull 30000
     = (RejectedWith ''Cannot read properties of null (reading 'message')'', ipc_example_odd)"
  by (simp add: requestAll_def initialResults_def ipc_example_odd_def ipc_example_def)

lemma to_result_id: "clusterId (to_result c v) = c"
  by (cases v) (simp_all add: to_result_def)

theorem C2_requestAll_resolves_witness:
  "settled (ipc_run (snd (requestAll (ipc_example\<lparr>totalClusters := Some 4\<rparr>) ''n'' ''ping'' VNull 30000))
      [Incoming (HandlerResponse ''n'' (VNum 5) (Some 1)) None,
       Incoming (HandlerError ''n'' (Some ''oops'') (Some 2)) None,
       TimerFires (RequestAllTimer ''n'')])
     = [ResolvedAll ''n''
          [\<lparr>clusterId = - 1, status = Ok, data = VStr ''pong'', error = None\<rparr>,
           \<lparr>clusterId = 1, status = Ok, data = VNum 5, error = None\<rparr>,
           \<lparr>clusterId = 2, status = Error, data = VUndefined, error = Some ''oops''\<rparr>]]
   \<and> outcome_all ''n'' [(- 1, VStr ''pong'')] 4
      [Incoming (HandlerResponse ''n'' (VNum 5) (Some 1)) None,
       Incoming (HandlerError ''n'' (Some ''oops'') (Some 2)) None,
       TimerFires (RequestAllTimer ''n'')]
     = Some [\<lparr>clusterId = - 1, status = Ok, data = VStr ''pong'', error = None\<rparr>,
           \<lparr>clusterId = 1, status = Ok, data = VNum 5, error = None\<rparr>,
           \<lparr>clusterId = 2, status = Error, data = VUndefined, error = Some ''oops''\<rparr>]
   \<and> requestAll (ipc_example_closed\<lparr>totalClusters := Some 4\<rparr>) ''n'' ''ping'' VNull 30000
     = (RejectedWith ''No process to send IPC message.'',
        ipc_example_closed\<lparr>totalClusters := Some 4,
          sent := [HandlerRequestAll ''n'' ''ping'' VNull]\<rparr>)"
proof -
  let ?s = "ipc_example\<lparr>totalClusters := Some 4\<rparr>"
  let ?c = "ipc_example_closed\<lparr>totalClusters := Some 4\<rparr>"
  let ?evs = "[Incoming (HandlerResponse ''n'' (VNum 5) (Some 1)) None,
       Incoming (HandlerError ''n'' (Some ''oops'') (Some 2)) None,
       TimerFires (RequestAllTimer ''n'')]"
  have wf: "ipc_wf ?s" and o: "timers_owned ?s"
    and wfc: "ipc_wf ?c" and oc: "timers_owned ?c"
    by (simp_all add: ipc_wf_def timers_owned_def ipc_example_def ipc_example_closed_def)
  have tot: "4 = (case totalClusters ?s of None \<Rightarrow> 0 | Some t \<Rightarrow> t)"
    and totc: "4 = (case totalClusters ?c of None \<Rightarrow> 0 | Some t \<Rightarrow> t)"
    by (simp_all add: ipc_example_def ipc_example_closed_def)
  have t: "(0::int) < 30000" by simp
  have seed: "(4::int) \<noteq> 0 \<and> initialResults ?s ''ping'' VNull = Fulfilled [(- 1, VStr ''pong'')]"
    and seedc: "(4::int) \<noteq> 0 \<and> initialResults ?c ''ping'' VNull = Fulfilled [(- 1, VStr ''pong'')]"
    by (simp_all add: initialResults_def ipc_example_def ipc_example_closed_def)
  have ok: "(2::int) \<le> 4 \<and> send ?s (HandlerRequestAll ''n'' ''ping'' VNull) = None"
    and rej: "(2::int) \<le> 4 \<and> send ?c (HandlerRequestAll ''n'' ''ping'' VNull)
        = Some ''No process to send IPC message.''"
    by (simp_all add: ipc_example_def ipc_example_closed_def)
  have evs: "ClearPending \<notin> set ?evs" by simp
  have out: "outcome_all ''n'' [(- 1, VStr ''pong'')] 4 ?evs
     = Some [\<lparr>clusterId = - 1, status = Ok, data = VStr ''pong'', error = None\<rparr>,
           \<lparr>clusterId = 1, status = Ok, data = VNum 5, error = None\<rparr>,
           \<lparr>clusterId = 2, status = Error, data = VUndefined, error = Some ''oops''\<rparr>]"
    by code_simp
  have ex: "4 - 1 + int (length [(- 1 :: int, VStr ''pong'')]) = 4" by simp
  have lg0: "settled ?s = []" by (simp add: ipc_example_def)
  note A = C2_requestAll_resolves [where s = ?s and n = "''n''" and h = "''ping''" and d = VNull
      and timeout = 30000 and tot = 4 and evs = ?evs, OF wf o tot t refl refl,
      THEN conjunct2, THEN conjunct2, THEN conjunct1, THEN spec, THEN mp, OF seed,
      THEN conjunct2, THEN conjunct2, THEN mp, OF ok,
      THEN conjunct2, THEN conjunct2, THEN conjunct1, THEN mp, OF evs, THEN conjunct1]
  have "filter (settles_all ''n'')
          (settled (ipc_run (snd (requestAll ?s ''n'' ''ping'' VNull 30000)) ?evs))
        = filter (settles_all ''n'') (settled ?s)
          @ (case outcome_all ''n'' [(- 1, VStr ''pong'')] 4 ?evs of
               None \<Rightarrow> [] | Some rs \<Rightarrow> [ResolvedAll ''n'' rs])"
    using A by (simp only: ex)
  then have f: "filter (settles_all ''n'')
          (settled (ipc_run (snd (requestAll ?s ''n'' ''ping'' VNull 30000)) ?evs))
        = [ResolvedAll ''n''
          [\<lparr>clusterId = - 1, status = Ok, data = VStr ''pong'', error = None\<rparr>,
           \<lparr>clusterId = 1, status = Ok, data = VNum 5, error = None\<rparr>,
           \<lparr>clusterId = 2, status = Error, data = VUndefined, error = Some ''oops''\<rparr>]]"
    by (simp only: out lg0 filter.simps append_Nil option.case)
  have lg: "settled (ipc_run (snd (requestAll ?s ''n'' ''ping'' VNull 30000)) ?evs)
        = filter (settles_all ''n'')
          (settled (ipc_run (snd (requestAll ?s ''n'' ''ping'' VNull 30000)) ?evs))"
    by code_simp
  note R = C2_requestAll_resolves [where s = ?c and n = "''n''" and h = "''ping''" and d = VNull
      and timeout = 30000 and tot = 4 and evs = "[]", OF wfc oc totc t refl refl,
      THEN conjunct2, THEN conjunct2, THEN conjunct1, THEN spec, THEN mp, OF seedc,
      THEN conjunct2, THEN conjunct1, THEN spec, THEN mp, OF rej, THEN conjunct1]
  have sc: "?c\<lparr>sent := sent ?c @ [HandlerRequestAll ''n'' ''ping'' VNull]\<rparr>
      = ipc_example_closed\<lparr>totalClusters := Some 4,
          sent := [HandlerRequestAll ''n'' ''ping'' VNull]\<rparr>"
    by (simp add: ipc_example_closed_def ipc_example_def)
  have r: "requestAll ?c ''n'' ''ping'' VNull 30000
     = (RejectedWith ''No process to send IPC message.'',
        ipc_example_closed\<lparr>totalClusters := Some 4,
          sent := [HandlerRequestAll ''n'' ''ping'' VNull]\<rparr>)"
    using R by (simp only: sc)
  show ?thesis using f lg out r by (simp only: simp_thms)
qed

text \<open>
  Claim C3, amended. In every \<open>requestAll\<close> call with a cluster count other than zero,
  the caller's own registered handler is run in the call itself, and once it has returned
  or thrown an error its result (or the error made from what it threw) is the one entry
  of the initial results, under the key \<open>-1\<close>: with one cluster this entry is the whole
  collection and nothing is sent; with more, the only message sent is the
  \<open>HandlerRequestAll\<close> and the pending entry starts from that seed, expecting one entry
  per cluster. A reply for the nonce with source \<open>c\<close>, a response or an error, puts its
  entry under the key \<open>c\<close>. \<open>ResultCollection.get\<close> finds every entry under its key, an
  entry found under a key has this \<open>clusterId\<close>, and replies from other units leave the
  local entry in place: it is found by \<open>get(-1)\<close>.
\<close>

theorem C3_local_seed_keyed_minus_one:
  "map_of (handlers s) h = Some fn \<Longrightarrow> tot = (case totalClusters s of None \<Rightarrow> 0 | Some t \<Rightarrow> t) \<Longrightarrow>
   tot \<noteq> 0 \<Longrightarrow>
   fn d = Returns loc \<or> (\<exists>m. fn d = Throws (Thrown m) \<and> loc = VError (error_text m)) \<Longrightarrow>
     initialResults s h d = Fulfilled [(- 1, loc)]
   \<and> rc_get (to_results [(- 1, loc)]) (- 1) = Some (to_result (- 1) loc)
   \<and> (tot \<le> 1 \<longrightarrow> requestAll s n h d timeout = (Fulfilled [to_result (- 1) loc], s))
   \<and> (2 \<le> tot \<and> send s (HandlerRequestAll n h d) = None \<longrightarrow>
         fst (requestAll s n h d timeout) = Pending
       \<and> sent (snd (requestAll s n h d timeout)) = sent s @ [HandlerRequestAll n h d]
       \<and> (\<exists>p. map_of (pendingAll (snd (requestAll s n h d timeout))) n = Some p
              \<and> results p = [(- 1, loc)] \<and> expected p = tot))
   \<and> (\<forall>s1 p c v sc. map_of (pendingAll s1) n = Some p \<longrightarrow>
         (map_of (pendingAll (snd (handleIncoming s1 (HandlerResponse n v (Some c)) sc))) n
            = Some (p\<lparr>results := AList.update c v (results p)\<rparr>)
          \<or> settled (snd (handleIncoming s1 (HandlerResponse n v (Some c)) sc))
            = settled s1 @ [ResolvedAll n (to_results (AList.update c v (results p)))]))
   \<and> (\<forall>rs c v. rc_get (to_results (AList.update c v rs)) c = Some (to_result c v)
               \<and> clusterId (to_result c v) = c)
   \<and> (\<forall>rs c v. c \<noteq> - 1 \<longrightarrow>
         rc_get (to_results (AList.update c v rs)) (- 1) = rc_get (to_results rs) (- 1))
   \<and> (\<forall>rs c r. rc_get (to_results rs) c = Some r \<longrightarrow> clusterId r = c)
   \<and> (\<forall>s1 p c e sc. map_of (pendingAll s1) n = Some p \<longrightarrow>
         (map_of (pendingAll (snd (handleIncoming s1 (HandlerError n e (Some c)) sc))) n
            = Some (p\<lparr>results := AList.update c (VError (error_text e)) (results p)\<rparr>)
          \<or> settled (snd (handleIncoming s1 (HandlerError n e (Some c)) sc))
            = settled s1
              @ [ResolvedAll n (to_results (AList.update c (VError (error_text e)) (results p)))]))"
proof -
  assume h: "map_of (handlers s) h = Some fn"
    and tot: "tot = (case totalClusters s of None \<Rightarrow> 0 | Some t \<Rightarrow> t)" and nz: "tot \<noteq> 0"
    and loc: "fn d = Returns loc \<or> (\<exists>m. fn d = Throws (Thrown m) \<and> loc = VError (error_text m))"
  have seed: "initialResults s h d = Fulfilled [(- 1, loc)]"
    using h loc by (auto simp: initialResults_def)
  have A: "rc_get (to_results [(- 1, loc)]) (- 1) = Some (to_result (- 1) loc)"
    by (simp add: rc_get_to_results)
  have B: "tot \<le> 1 \<longrightarrow> requestAll s n h d timeout = (Fulfilled [to_result (- 1) loc], s)"
    using tot nz by (simp add: requestAll_def Let_def seed to_results_def)
  have C: "2 \<le> tot \<and> send s (HandlerRequestAll n h d) = None \<longrightarrow>
         fst (requestAll s n h d timeout) = Pending
       \<and> sent (snd (requestAll s n h d timeout)) = sent s @ [HandlerRequestAll n h d]
       \<and> (\<exists>p. map_of (pendingAll (snd (requestAll s n h d timeout))) n = Some p
              \<and> results p = [(- 1, loc)] \<and> expected p = tot)"
    using tot nz by (simp add: requestAll_def Let_def seed do_send_def update_conv')
  have D: "\<forall>s1 p c v sc. map_of (pendingAll s1) n = Some p \<longrightarrow>
         (map_of (pendingAll (snd (handleIncoming s1 (HandlerResponse n v (Some c)) sc))) n
            = Some (p\<lparr>results := AList.update c v (results p)\<rparr>)
          \<or> settled (snd (handleIncoming s1 (HandlerResponse n v (Some c)) sc))
            = settled s1 @ [ResolvedAll n (to_results (AList.update c v (results p)))])"
    by (simp add: handleIncoming_def deliver_all_def Let_def update_conv')
  have D': "\<forall>s1 p c e sc. map_of (pendingAll s1) n = Some p \<longrightarrow>
         (map_of (pendingAll (snd (handleIncoming s1 (HandlerError n e (Some c)) sc))) n
            = Some (p\<lparr>results := AList.update c (VError (error_text e)) (results p)\<rparr>)
          \<or> settled (snd (handleIncoming s1 (HandlerError n e (Some c)) sc))
            = settled s1
              @ [ResolvedAll n (to_results (AList.update c (VError (error_text e)) (results p)))])"
    by (simp add: handleIncoming_def deliver_all_def Let_def update_conv')
  have E: "\<forall>rs c v. rc_get (to_results (AList.update c v rs)) c = Some (to_result c v)
               \<and> clusterId (to_result c v) = c"
    by (simp add: rc_get_to_results update_conv' to_result_id)
  have F: "\<forall>rs c v. c \<noteq> - 1 \<longrightarrow>
         rc_get (to_results (AList.update c v rs)) (- 1) = rc_get (to_results rs) (- 1)"
    by (simp add: rc_get_to_results update_conv')
  have G: "\<forall>rs c r. rc_get (to_results rs) c = Some r \<longrightarrow> clusterId r = c"
    by (auto simp: rc_get_to_results to_result_id)
  show ?thesis using seed A B C D D' E F G by blast
qed

text \<open>
  Claim C3 as stated fails: the local entry is keyed by \<open>-1\<close>, not by the caller's unit
  id. In a fleet of one cluster (the caller is unit 0) the collection holds the entry
  \<open>-1\<close> alone, and in a fleet of three where units 1 and 2 reply (the caller is unit 0)
  it holds the entries \<open>-1\<close>, 1 and 2: \<open>get(0)\<close> finds nothing. And without a
  cluster count the call returns the empty collection at once: the local handler's result
  is not in it.
\<close>

theorem C3_local_entry_counterexample:
  "fst (requestAll (ipc_example\<lparr>totalClusters := Some 1\<rparr>) ''n'' ''ping'' VNull 30000)
     = Fulfilled [\<lparr>clusterId = - 1, status = Ok, data = VStr ''pong'', error = None\<rparr>]
   \<and> rc_get [\<lparr>clusterId = - 1, status = Ok, data = VStr ''pong'', error = None\<rparr>] 0 = None
   \<and> settled (ipc_run (snd (requestAll ipc_example ''n'' ''ping'' VNull 30000))
        [Incoming (HandlerResponse ''n'' (VNum 5) (Some 1)) None,
         Incoming (HandlerResponse ''n'' (VNum 6) (Some 2)) None])
     = [ResolvedAll ''n''
          [\<lparr>clusterId = - 1, status = Ok, data = VStr ''pong'', error = None\<rparr>,
           \<lparr>clusterId = 1, status = Ok, data = VNum 5, error = None\<rparr>,
           \<lparr>clusterId = 2, status = Ok, data = VNum 6, error = None\<rparr>]]
   \<and> rc_get [\<lparr>clusterId = - 1, status = Ok, data = VStr ''pong'', error = None\<rparr>,
           \<lparr>clusterId = 1, status = Ok, data = VNum 5, error = None\<rparr>,
           \<lparr>clusterId = 2, status = Ok, data = VNum 6, error = None\<rparr>] 0 = None
   \<and> requestAll (ipc_example\<lparr>totalClusters := None\<rparr>) ''n'' ''ping'' VNull 30000
     = (Fulfilled [], ipc_example\<lparr>totalClusters := None\<rparr>)"
proof -
  have a: "fst (requestAll (ipc_example\<lparr>totalClusters := Some 1\<rparr>) ''n'' ''ping'' VNull 30000)
     = Fulfilled [\<lparr>clusterId = - 1, status = Ok, data = VStr ''pong'', error = None\<rparr>]"
    by code_simp
  have b: "rc_get [\<lparr>clusterId = - 1, status = Ok, data = VStr ''pong'', error = None\<rparr>] 0 = None"
    by code_simp
  have c: "settled (ipc_run (snd (requestAll ipc_example ''n'' ''ping'' VNull 30000))
        [Incoming (HandlerResponse ''n'' (VNum 5) (Some 1)) None,
         Incoming (HandlerResponse ''n'' (VNum 6) (Some 2)) None])
     = [ResolvedAll ''n''
          [\<lparr>clusterId = - 1, status = Ok, data = VStr ''pong'', error = None\<rparr>,
           \<lparr>clusterId = 1, status = Ok, data = VNum 5, error = None\<rparr>,
           \<lparr>clusterId = 2, status = Ok, data = VNum 6, error = None\<rparr>]]"
    by code_simp
  have d: "rc_get [\<lparr>clusterId = - 1, status = Ok, data = VStr ''pong'', error = None\<rparr>,
           \<lparr>clusterId = 1, status = Ok, data = VNum 5, error = None\<rparr>,
           \<lparr>clusterId = 2, status = Ok, data = VNum 6, error = None\<rparr>] 0 = None"
    by code_simp
  have e: "requestAll (ipc_example\<lparr>totalClusters := None\<rparr>) ''n'' ''ping'' VNull 30000
     = (Fulfilled [], ipc_example\<lparr>totalClusters := None\<rparr>)"
    by (simp add: requestAll_def)
  show ?thesis by (intro conjI a b c d e)
qed

theorem C3_local_seed_keyed_minus_one_witness:
  "initialResults ipc_example ''ping'' VNull = Fulfilled [(- 1, VStr ''pong'')]
   \<and> initialResults ipc_example ''boom'' VNull = Fulfilled [(- 1, VError ''bad'')]
   \<and> rc_get (to_results [(- 1, VStr ''pong'')]) (- 1) = Some (to_result (- 1) (VStr ''pong''))
   \<and> sent (snd (requestAll ipc_example ''n'' ''ping'' VNull 30000))
       = sent ipc_example @ [HandlerRequestAll ''n'' ''ping'' VNull]"
proof -
  have h1: "map_of (handlers ipc_example) ''ping'' = Some (\<lambda>d. Returns (VStr ''pong''))"
    and h2: "map_of (handlers ipc_example) ''boom'' = Some (\<lambda>d. Throws (Thrown (Some ''bad'')))"
    and tot: "3 = (case totalClusters ipc_example of None \<Rightarrow> 0 | Some t \<Rightarrow> t)"
    and ok: "send ipc_example (HandlerRequestAll ''n'' ''ping'' VNull) = None"
    by (simp_all add: ipc_example_def)
  have l1: "(\<lambda>d. Returns (VStr ''pong'')) VNull = Returns (VStr ''pong'')
        \<or> (\<exists>m. (\<lambda>d. Returns (VStr ''pong'')) VNull = Throws (Thrown m)
               \<and> VStr ''pong'' = VError (error_text m))"
    and l2: "(\<lambda>d. Throws (Thrown (Some ''bad''))) VNull = Returns (VError ''bad'')
        \<or> (\<exists>m. (\<lambda>d. Throws (Thrown (Some ''bad''))) VNull = Throws (Thrown m)
               \<and> VError ''bad'' = VError (error_text m))"
    by (simp_all add: error_text_def)
  have nz: "(3::int) \<noteq> 0" and two: "(2::int) \<le> 3" by simp_all
  note A = C3_local_seed_keyed_minus_one [where s = ipc_example and h = "''ping''"
        and fn = "\<lambda>d. Returns (VStr ''pong'')" and tot = 3 and loc = "VStr ''pong''"
        and d = VNull and n = "''n''" and timeout = 30000, OF h1 tot nz l1]
  note B = C3_local_seed_keyed_minus_one [where s = ipc_example and h = "''boom''"
        and fn = "\<lambda>d. Throws (Thrown (Some ''bad''))" and tot = 3 and loc = "VError ''bad''"
        and d = VNull and n = "''n''" and timeout = 30000, OF h2 tot nz l2]
  note a1 = A [THEN conjunct1]
  note a2 = A [THEN conjunct2, THEN conjunct1]
  note a4 = A [THEN conjunct2, THEN conjunct2, THEN conjunct2, THEN conjunct1, THEN mp,
      OF conjI [OF two ok], THEN conjunct2, THEN conjunct1]
  note b1 = B [THEN conjunct1]
  show ?thesis by (intro conjI a1 a2 a4 b1)
qed

section \<open>Properties of the event bus client\<close>

lemma bus_owned_keep:
  "bus_owned c \<Longrightarrow> set (ackPromises c') \<subseteq> set (ackPromises c) \<Longrightarrow> bus_owned c'"
  unfolding bus_owned_def by blast

lemma bus_handleIncoming_owned: "bus_owned c \<Longrightarrow> bus_owned (bus_handleIncoming c m)"
proof (cases m)
  case (EventAck n src)
  assume o: "bus_owned c"
  show ?thesis
  proof (cases "map_of (ackPromises c) n")
    case None
    then show ?thesis using o by (simp add: bus_handleIncoming_def EventAck)
  next
    case (Some p)
    then have "(n, p) \<in> set (ackPromises c)" by (rule map_of_SomeD)
    then have t: "ack_timeout p = None \<or> ack_timeout p = Some (AckTimer n)"
      using o unfolding bus_owned_def by fastforce
    show ?thesis
    proof (cases "ack_received p + 1 \<ge> ack_expected p")
      case True
      then show ?thesis
        by (intro bus_owned_keep [OF o])
           (auto simp: bus_handleIncoming_def EventAck Some Let_def dest: in_delete_cases)
    next
      case False
      then show ?thesis
        using o t unfolding bus_owned_def
        by (auto simp: bus_handleIncoming_def EventAck Some Let_def dest!: in_update_cases)
    qed
  qed
qed (simp_all add: bus_handleIncoming_def bus_owned_def bus_do_send_def)

lemma bus_timer_fires_owned: "bus_owned c \<Longrightarrow> bus_owned (bus_timer_fires c t)"
  by (rule bus_owned_keep [of c])
     (auto simp: bus_timer_fires_def Let_def split: timer.splits dest: in_delete_cases)

lemma bus_step_owned: "bus_owned c \<Longrightarrow> bus_owned (bus_step c ev)"
  by (cases ev) (simp_all add: bus_handleIncoming_owned bus_timer_fires_owned)

lemma bus_run_Cons: "bus_run c (ev # evs) = bus_run (bus_step c ev) evs"
  by (simp add: bus_run_def)

lemma bus_finished_step:
  "bus_finished c n \<Longrightarrow>
   bus_finished (bus_step c ev) n
   \<and> resolved_for n (bus_resolved (bus_step c ev)) = resolved_for n (bus_resolved c)"
proof (cases ev)
  case (BusIncoming m)
  assume f: "bus_finished c n"
  show ?thesis
  proof (cases m)
    case (EventAck k src)
    then show ?thesis
      using f
      by (auto simp: BusIncoming bus_handleIncoming_def bus_finished_def resolved_for_def Let_def
          delete_conv' update_conv' clearTimeout_def split: option.splits)
  qed (use f in \<open>simp_all add: BusIncoming bus_handleIncoming_def bus_finished_def
         bus_do_send_def\<close>)
next
  case (BusTimerFires t)
  assume f: "bus_finished c n"
  then show ?thesis
    by (auto simp: BusTimerFires bus_timer_fires_def bus_finished_def resolved_for_def Let_def
        delete_conv' split: timer.splits)
qed

lemma bus_finished_run:
  "bus_finished c n \<Longrightarrow>
   bus_finished (bus_run c evs) n
   \<and> resolved_for n (bus_resolved (bus_run c evs)) = resolved_for n (bus_resolved c)"
proof (induction evs arbitrary: c)
  case Nil
  then show ?case by (simp add: bus_run_def)
next
  case (Cons ev evs)
  show ?case
    using Cons.IH [of "bus_step c ev"] bus_finished_step [OF Cons.prems, of ev]
    by (simp add: bus_run_Cons)
qed

lemma bus_step_other:
  assumes w: "bus_waiting c n p" and t: "ev \<noteq> BusTimerFires (AckTimer n)" and a: "\<not> is_ack n ev"
  shows "bus_waiting (bus_step c ev) n p
       \<and> resolved_for n (bus_resolved (bus_step c ev)) = resolved_for n (bus_resolved c)"
proof -
  have o: "bus_owned (bus_step c ev)" using w by (simp add: bus_waiting_def bus_step_owned)
  show ?thesis
  proof (cases ev)
    case (BusIncoming m)
    show ?thesis
    proof (cases m)
      case (EventAck k src)
      then have kn: "k \<noteq> n" using a BusIncoming by simp
      show ?thesis
      proof (cases "map_of (ackPromises c) k")
        case None
        then show ?thesis using w by (simp add: BusIncoming EventAck bus_handleIncoming_def)
      next
        case (Some pk)
        then have "(k, pk) \<in> set (ackPromises c)" by (rule map_of_SomeD)
        then have "ack_timeout pk = None \<or> ack_timeout pk = Some (AckTimer k)"
          using w unfolding bus_waiting_def bus_owned_def by fastforce
        then show ?thesis
          using w kn o
          by (auto simp: BusIncoming EventAck Some bus_handleIncoming_def bus_waiting_def Let_def
              resolved_for_def delete_conv' update_conv' clearTimeout_def)
      qed
    qed (use w o in \<open>simp_all add: BusIncoming bus_handleIncoming_def bus_waiting_def
           bus_do_send_def bus_owned_def\<close>)
  next
    case (BusTimerFires t')
    then have "t' \<noteq> AckTimer n" using t by simp
    then show ?thesis
      using w o
      by (auto simp: BusTimerFires bus_timer_fires_def bus_waiting_def Let_def resolved_for_def
          delete_conv' split: timer.splits)
  qed
qed

lemma bus_step_ack:
  assumes w: "bus_waiting c n p" and a: "is_ack n ev"
  shows "if ack_received p + 1 \<ge> ack_expected p
         then bus_finished (bus_step c ev) n
            \<and> resolved_for n (bus_resolved (bus_step c ev))
                = resolved_for n (bus_resolved c) @ [(n, ack_received p + 1)]
         else bus_waiting (bus_step c ev) n (p\<lparr>ack_received := ack_received p + 1\<rparr>)
            \<and> resolved_for n (bus_resolved (bus_step c ev)) = resolved_for n (bus_resolved c)"
proof -
  have o: "bus_owned (bus_step c ev)" using w by (simp add: bus_waiting_def bus_step_owned)
  obtain src where ev: "ev = BusIncoming (EventAck n src)"
    using a by (cases "(n, ev)" rule: is_ack.cases) auto
  show ?thesis
    using w o
    by (auto simp: ev bus_handleIncoming_def bus_waiting_def bus_finished_def Let_def
        resolved_for_def delete_conv' update_conv' clearTimeout_def)
qed

lemma bus_step_timer:
  assumes w: "bus_waiting c n p"
  shows "bus_finished (bus_timer_fires c (AckTimer n)) n
       \<and> resolved_for n (bus_resolved (bus_timer_fires c (AckTimer n)))
           = resolved_for n (bus_resolved c) @ [(n, ack_received p)]"
  using w
  by (simp add: bus_timer_fires_def bus_waiting_def bus_finished_def Let_def resolved_for_def
      delete_conv')

lemma bus_waiting_run:
  "bus_waiting c n p \<Longrightarrow>
   resolved_for n (bus_resolved (bus_run c evs))
     = resolved_for n (bus_resolved c)
       @ (case ack_outcome n (ack_expected p) (ack_received p) evs of
            None \<Rightarrow> [] | Some k \<Rightarrow> [(n, k)])
   \<and> (case ack_outcome n (ack_expected p) (ack_received p) evs of
        None \<Rightarrow> bus_waiting (bus_run c evs) n (p\<lparr>ack_received := ack_received p + count_acks n evs\<rparr>)
      | Some k \<Rightarrow> bus_finished (bus_run c evs) n)"
proof (induction evs arbitrary: c p)
  case Nil
  then show ?case by (simp add: bus_run_def)
next
  case (Cons ev evs)
  show ?case
  proof (cases "ev = BusTimerFires (AckTimer n)")
    case True
    then show ?thesis
      using bus_step_timer [OF Cons.prems] bus_finished_run [of "bus_timer_fires c (AckTimer n)" n evs]
      by (auto simp: bus_run_Cons)
  next
    case notimer: False
    show ?thesis
    proof (cases "is_ack n ev")
      case False
      then show ?thesis
        using bus_step_other [OF Cons.prems notimer False] Cons.IH [of "bus_step c ev" p] notimer
        by (auto simp: bus_run_Cons split: option.splits)
    next
      case True
      show ?thesis
      proof (cases "ack_received p + 1 \<ge> ack_expected p")
        case full: True
        then show ?thesis
          using bus_step_ack [OF Cons.prems True] bus_finished_run [of "bus_step c ev" n evs]
            True notimer
          by (auto simp: bus_run_Cons)
      next
        case False
        then show ?thesis
          using bus_step_ack [OF Cons.prems True]
            Cons.IH [of "bus_step c ev" "p\<lparr>ack_received := ack_received p + 1\<rparr>"] True notimer
          by (auto simp: bus_run_Cons add.assoc split: option.splits)
      qed
    qed
  qed
qed


lemma ack_outcome_count:
  "BusTimerFires (AckTimer n) \<notin> set evs \<Longrightarrow> k < ex \<Longrightarrow>
   ack_outcome n ex k evs = (if k + count_acks n evs \<ge> ex then Some ex else None)"
proof (induction evs arbitrary: k)
  case Nil
  then show ?case by simp
next
  case (Cons ev evs)
  show ?case
  proof (cases "is_ack n ev")
    case False
    then show ?thesis using Cons by auto
  next
    case True
    have c: "0 \<le> count_acks n evs" by (induction evs) auto
    show ?thesis
    proof (cases "k + 1 \<ge> ex")
      case True
      then show ?thesis using \<open>is_ack n ev\<close> Cons.prems c by auto
    next
      case False
      then show ?thesis
        using \<open>is_ack n ev\<close> Cons.prems Cons.IH [of "k + 1"] by (auto simp: add.assoc)
    qed
  qed
qed

lemma broadcastAndWait_pending:
  assumes o: "bus_owned c" and ok: "bus_send c (EventEmitAndWait n event d (bus_clusterId c)) = None"
    and e: "0 < e"
  shows "fst (broadcastAndWait c n event d timeout (Some e)) = Pending"
    and "bus_waiting (snd (broadcastAndWait c n event d timeout (Some e))) n
           \<lparr>ack_expected = e, ack_received = 0, ack_timeout = Some (AckTimer n)\<rparr>"
    and "bus_resolved (snd (broadcastAndWait c n event d timeout (Some e))) = bus_resolved c"
proof -
  let ?p = "\<lparr>ack_expected = e, ack_received = 0, ack_timeout = Some (AckTimer n)\<rparr>"
  let ?c1 = "c\<lparr>bus_sent := bus_sent c @ [EventEmitAndWait n event d (bus_clusterId c)],
               bus_timers := bus_timers c @ [AckTimer n],
               ackPromises := AList.update n ?p (ackPromises c)\<rparr>"
  have r: "broadcastAndWait c n event d timeout (Some e) = (Pending, ?c1)"
    using ok e by (simp add: broadcastAndWait_def bus_do_send_def)
  have "bus_owned ?c1"
    using o unfolding bus_owned_def by (auto dest!: in_update_cases)
  then have "bus_waiting ?c1 n ?p" by (simp add: bus_waiting_def update_conv')
  then show "bus_waiting (snd (broadcastAndWait c n event d timeout (Some e))) n ?p"
    by (simp add: r)
  show "fst (broadcastAndWait c n event d timeout (Some e)) = Pending" by (simp add: r)
  show "bus_resolved (snd (broadcastAndWait c n event d timeout (Some e))) = bus_resolved c"
    by (simp add: r)
qed

text \<open>
  Claim C7, amended. Let \<open>broadcastAndWait\<close> be called. If its \<open>send\<close> rejects with an
  error, the call is rejected with that error, nothing is stored, and nothing resolves it
  later. Let the \<open>send\<close> succeed. If \<open>expectedClusters\<close> is absent, zero or negative, the
  call is fulfilled with 0 right after the send and only the list of sent messages has
  changed: no entry is stored. If it is positive, the call is pending and, in the course
  of any further events, the stored \<open>resolve\<close> of its nonce is called exactly as the
  specification says (\<open>ack_outcome\<close>): not at all so far, or once. Without the timer
  firing this happens when the number of acknowledgements for the nonce reaches the
  expected count, and the value is that count; once the timer has fired the call has been
  resolved exactly once, and if it was still waiting then, the value is the number of
  acknowledgements received so far.
\<close>

theorem C7_broadcastAndWait:
  "bus_owned c \<Longrightarrow> msg = EventEmitAndWait n event d (bus_clusterId c) \<Longrightarrow>
   want = (case expectedClusters of None \<Rightarrow> 0 | Some e \<Rightarrow> e) \<Longrightarrow>
   c' = bus_run (snd (broadcastAndWait c n event d timeout expectedClusters)) evs \<Longrightarrow>
     (\<forall>e. bus_send c msg = Some e \<longrightarrow>
        broadcastAndWait c n event d timeout expectedClusters
          = (RejectedWith e, c\<lparr>bus_sent := bus_sent c @ [msg]\<rparr>)
      \<and> (bus_finished c n \<longrightarrow>
            resolved_for n (bus_resolved c') = resolved_for n (bus_resolved c)))
   \<and> (bus_send c msg = None \<and> want \<le> 0 \<longrightarrow>
        broadcastAndWait c n event d timeout expectedClusters
          = (Fulfilled 0, c\<lparr>bus_sent := bus_sent c @ [msg]\<rparr>))
   \<and> (bus_send c msg = None \<and> 0 < want \<longrightarrow>
        fst (broadcastAndWait c n event d timeout expectedClusters) = Pending
      \<and> bus_sent (snd (broadcastAndWait c n event d timeout expectedClusters))
          = bus_sent c @ [msg]
      \<and> resolved_for n (bus_resolved c')
          = resolved_for n (bus_resolved c)
            @ (case ack_outcome n want 0 evs of None \<Rightarrow> [] | Some k \<Rightarrow> [(n, k)])
      \<and> (\<exists>k. resolved_for n (bus_resolved (bus_timer_fires c' (AckTimer n)))
                = resolved_for n (bus_resolved c) @ [(n, k)])
      \<and> (ack_outcome n want 0 evs = None \<longrightarrow>
            resolved_for n (bus_resolved (bus_timer_fires c' (AckTimer n)))
              = resolved_for n (bus_resolved c) @ [(n, count_acks n evs)])
      \<and> (BusTimerFires (AckTimer n) \<notin> set evs \<longrightarrow>
            ack_outcome n want 0 evs
              = (if count_acks n evs \<ge> want then Some want else None)))"
proof -
  assume o: "bus_owned c" and msg: "msg = EventEmitAndWait n event d (bus_clusterId c)"
    and want: "want = (case expectedClusters of None \<Rightarrow> 0 | Some e \<Rightarrow> e)"
    and c': "c' = bus_run (snd (broadcastAndWait c n event d timeout expectedClusters)) evs"
  have R: "broadcastAndWait c n event d timeout expectedClusters
          = (RejectedWith e, c\<lparr>bus_sent := bus_sent c @ [msg]\<rparr>)
      \<and> (bus_finished c n \<longrightarrow>
            resolved_for n (bus_resolved c') = resolved_for n (bus_resolved c))"
    if rej: "bus_send c msg = Some e" for e
  proof -
    have r: "broadcastAndWait c n event d timeout expectedClusters
          = (RejectedWith e, c\<lparr>bus_sent := bus_sent c @ [msg]\<rparr>)"
      using rej by (simp add: broadcastAndWait_def bus_do_send_def msg)
    have "resolved_for n (bus_resolved c') = resolved_for n (bus_resolved c)"
      if f: "bus_finished c n"
    proof -
      have "bus_finished (c\<lparr>bus_sent := bus_sent c @ [msg]\<rparr>) n"
        using f by (simp add: bus_finished_def)
      then show ?thesis
        using bus_finished_run [of "c\<lparr>bus_sent := bus_sent c @ [msg]\<rparr>" n evs]
        by (simp add: c' r)
    qed
    then show ?thesis using r by simp
  qed
  have A: "broadcastAndWait c n event d timeout expectedClusters
          = (Fulfilled 0, c\<lparr>bus_sent := bus_sent c @ [msg]\<rparr>)"
    if "bus_send c msg = None" "want \<le> 0"
    using that want by (simp add: broadcastAndWait_def bus_do_send_def msg)
  have B: "fst (broadcastAndWait c n event d timeout expectedClusters) = Pending
      \<and> bus_sent (snd (broadcastAndWait c n event d timeout expectedClusters))
          = bus_sent c @ [msg]
      \<and> resolved_for n (bus_resolved c')
          = resolved_for n (bus_resolved c)
            @ (case ack_outcome n want 0 evs of None \<Rightarrow> [] | Some k \<Rightarrow> [(n, k)])
      \<and> (\<exists>k. resolved_for n (bus_resolved (bus_timer_fires c' (AckTimer n)))
                = resolved_for n (bus_resolved c) @ [(n, k)])
      \<and> (ack_outcome n want 0 evs = None \<longrightarrow>
            resolved_for n (bus_resolved (bus_timer_fires c' (AckTimer n)))
              = resolved_for n (bus_resolved c) @ [(n, count_acks n evs)])
      \<and> (BusTimerFires (AckTimer n) \<notin> set evs \<longrightarrow>
            ack_outcome n want 0 evs
              = (if count_acks n evs \<ge> want then Some want else None))"
    if ok0: "bus_send c msg = None" and pos: "0 < want"
  proof -
    let ?p = "\<lparr>ack_expected = want, ack_received = 0, ack_timeout = Some (AckTimer n)\<rparr>"
    have ok: "bus_send c (EventEmitAndWait n event d (bus_clusterId c)) = None"
      using ok0 by (simp add: msg)
    have ec: "expectedClusters = Some want" using want pos by (cases expectedClusters) auto
    have pend: "fst (broadcastAndWait c n event d timeout expectedClusters) = Pending"
      and w: "bus_waiting (snd (broadcastAndWait c n event d timeout expectedClusters)) n ?p"
      and lg: "bus_resolved (snd (broadcastAndWait c n event d timeout expectedClusters))
                 = bus_resolved c"
      using broadcastAndWait_pending [OF o ok pos, of timeout] by (simp_all add: ec)
    have snt: "bus_sent (snd (broadcastAndWait c n event d timeout expectedClusters))
          = bus_sent c @ [msg]"
      using ok pos by (simp add: broadcastAndWait_def bus_do_send_def msg ec)
    have run: "resolved_for n (bus_resolved c')
          = resolved_for n (bus_resolved c)
            @ (case ack_outcome n want 0 evs of None \<Rightarrow> [] | Some k \<Rightarrow> [(n, k)])"
      and after: "case ack_outcome n want 0 evs of
              None \<Rightarrow> bus_waiting c' n (?p\<lparr>ack_received := count_acks n evs\<rparr>)
            | Some k \<Rightarrow> bus_finished c' n"
      using bus_waiting_run [OF w, of evs] by (auto simp: c' lg split: option.splits)
    have timer: "resolved_for n (bus_resolved (bus_timer_fires c' (AckTimer n)))
              = resolved_for n (bus_resolved c) @ [(n, count_acks n evs)]"
      if "ack_outcome n want 0 evs = None"
      using bus_step_timer [of c' n "?p\<lparr>ack_received := count_acks n evs\<rparr>"] after run that
      by (auto split: option.splits)
    have timer': "\<exists>k. resolved_for n (bus_resolved (bus_timer_fires c' (AckTimer n)))
                = resolved_for n (bus_resolved c) @ [(n, k)]"
    proof (cases "ack_outcome n want 0 evs")
      case None
      then show ?thesis using timer by blast
    next
      case (Some k)
      then have "bus_finished c' n" using after by simp
      then show ?thesis
        using bus_finished_step [of c' n "BusTimerFires (AckTimer n)"] run Some by simp
    qed
    have cnt: "BusTimerFires (AckTimer n) \<notin> set evs \<longrightarrow>
            ack_outcome n want 0 evs
              = (if count_acks n evs \<ge> want then Some want else None)"
      using ack_outcome_count [of n evs 0 want] pos by simp
    show ?thesis using pend snt run timer timer' cnt by blast
  qed
  show ?thesis using R A B by blast
qed

text \<open>
  Claim C7 as stated fails: the call is rejected when \<open>send\<close> rejects
  (\<open>await this.send(...)\<close> comes first), whether or not acknowledgements are expected;
  and a negative \<open>expectedClusters\<close> is answered with 0 at once, like zero.
\<close>

theorem C7_broadcastAndWait_counterexample:
  "fst (broadcastAndWait bus_example_closed ''n'' ''cache:clear'' VNull 10000 (Some 2))
     = RejectedWith ''No process to send IPC message.''
   \<and> fst (broadcastAndWait bus_example_closed ''n'' ''cache:clear'' VNull 10000 None)
     = RejectedWith ''No process to send IPC message.''
   \<and> fst (broadcastAndWait bus_example ''n'' ''cache:clear'' VNull 10000 (Some (- 1)))
     = Fulfilled 0"
  by code_simp

theorem C7_broadcastAndWait_witness:
  "bus_resolved (bus_run (snd (broadcastAndWait bus_example ''n'' ''cache:clear'' VNull 10000 (Some 2)))
      [BusIncoming (EventAck ''n'' 1), BusIncoming (EventAck ''m'' 2),
       BusIncoming (EventAck ''n'' 2), BusIncoming (EventAck ''n'' 3),
       BusTimerFires (AckTimer ''n'')]) = [(''n'', 2)]
   \<and> resolved_for ''n'' (bus_resolved (bus_run
        (snd (broadcastAndWait bus_example ''n'' ''cache:clear'' VNull 10000 (Some 2)))
        [BusIncoming (EventAck ''n'' 1), BusTimerFires (AckTimer ''n''),
         BusIncoming (EventAck ''n'' 2)])) = [(''n'', 1)]
   \<and> fst (broadcastAndWait bus_example ''n'' ''cache:clear'' VNull 10000 None) = Fulfilled 0
   \<and> fst (broadcastAndWait
            (bus_example\<lparr>bus_send := (\<lambda>m. Some ''channel closed'')\<rparr>)
            ''n'' ''cache:clear'' VNull 10000 (Some 2)) = RejectedWith ''channel closed''"
proof -
  let ?evs = "[BusIncoming (EventAck ''n'' 1), BusTimerFires (AckTimer ''n''),
         BusIncoming (EventAck ''n'' 2)]"
  let ?msg = "EventEmitAndWait ''n'' ''cache:clear'' VNull (bus_clusterId bus_example)"
  let ?cl = "bus_example\<lparr>bus_send := (\<lambda>m. Some ''channel closed'')\<rparr>"
  have o: "bus_owned bus_example" by (simp add: bus_owned_def bus_example_def)
  have ok: "bus_send bus_example ?msg = None"
    by (simp add: bus_example_def)
  have ex: "2 = (case Some 2 of None \<Rightarrow> 0 | Some e \<Rightarrow> (e::int))" by simp
  have pos: "bus_send bus_example ?msg = None \<and> (0::int) < 2" using ok by simp
  note A = C7_broadcastAndWait [where c = bus_example and n = "''n''" and event = "''cache:clear''"
      and d = VNull and timeout = 10000 and expectedClusters = "Some 2" and want = 2
      and evs = ?evs, OF o refl ex refl,
      THEN conjunct2, THEN conjunct2, THEN mp, OF pos, THEN conjunct2, THEN conjunct2,
      THEN conjunct1]
  have out: "ack_outcome ''n'' 2 0 ?evs = Some 1" by code_simp
  have lg0: "resolved_for ''n'' (bus_resolved bus_example) = []" by code_simp
  have a: "resolved_for ''n'' (bus_resolved (bus_run
        (snd (broadcastAndWait bus_example ''n'' ''cache:clear'' VNull 10000 (Some 2))) ?evs))
        = [(''n'', 1)]"
    using A by (simp only: out lg0 option.case append_Nil)
  have b: "bus_resolved (bus_run (snd (broadcastAndWait bus_example ''n'' ''cache:clear'' VNull 10000 (Some 2)))
      [BusIncoming (EventAck ''n'' 1), BusIncoming (EventAck ''m'' 2),
       BusIncoming (EventAck ''n'' 2), BusIncoming (EventAck ''n'' 3),
       BusTimerFires (AckTimer ''n'')]) = [(''n'', 2)]"
    by code_simp
  have c: "fst (broadcastAndWait bus_example ''n'' ''cache:clear'' VNull 10000 None) = Fulfilled 0"
    by code_simp
  have ocl: "bus_owned ?cl" by (simp add: bus_owned_def bus_example_def)
  have rej: "bus_send ?cl (EventEmitAndWait ''n'' ''cache:clear'' VNull (bus_clusterId ?cl))
       = Some ''channel closed''"
    by simp
  note R = C7_broadcastAndWait [where c = ?cl and n = "''n''" and event = "''cache:clear''"
      and d = VNull and timeout = 10000 and expectedClusters = "Some 2" and want = 2
      and evs = "[]", OF ocl refl ex refl,
      THEN conjunct1, THEN spec, THEN mp, OF rej, THEN conjunct1]
  have d: "fst (broadcastAndWait ?cl ''n'' ''cache:clear'' VNull 10000 (Some 2))
       = RejectedWith ''channel closed''"
    using R by (simp only: fst_conv)
  show ?thesis by (intro conjI a b c d)
qed

section \<open>Properties of the manager's readiness\<close>











section \<open>Properties of the shutdown\<close>




















lemma finish_props:
  "filter is_call ([InfoShutdownCompleted] @ clearForce g @ cleanup_guard g @ [Exit 0]) = []"
  "filter is_kill ([InfoShutdownCompleted] @ clearForce g @ cleanup_guard g @ [Exit 0]) = []"
  "EmitShutdownComplete \<notin> set ([InfoShutdownCompleted] @ clearForce g @ cleanup_guard g @ [Exit 0])"
  by (simp_all add: clearForce_def cleanup_guard_def)





text \<open>
  A task that rejects with \<open>null\<close>: the \<open>catch\<close> of the loop throws a \<open>TypeError\<close> when
  it reads the message, the loop is left for the outer \<open>catch\<close>, the task after it is
  never called, \<open>shutdown:complete\<close> is not emitted and the exit code is 1.
\<close>

lemma shutdown_null_rejection:
  "executeShutdown guard_example_null None None
     = [DebugStep ''A'', TaskCalled ''A'', DebugCompleted ''A'',
        DebugStep ''B'', TaskCalled ''B'',
        DebugShutdownError ''Cannot read properties of null (reading 'message')'',
        KillSigterm 0, Terminate 1, RemovePidFile, Exit 1]"
  by code_simp

section \<open>The states a handler can be in\<close>

text \<open>
  The two invariants are those of every state a handler can be in: they hold of a new
  handler and are kept by \<open>handle\<close>, by \<open>request\<close> with a nonce that is not in use, by
  \<open>requestAll\<close> and by every event.
\<close>

lemma new_IPCHandler_wf: "ipc_wf (new_IPCHandler sendFn tc) \<and> timers_owned (new_IPCHandler sendFn tc)"
  by (simp add: ipc_wf_def timers_owned_def new_IPCHandler_def)

lemma handle_keeps_wf:
  "ipc_wf s \<Longrightarrow> timers_owned s \<Longrightarrow> ipc_wf (handle s name fn) \<and> timers_owned (handle s name fn)"
  by (simp add: ipc_wf_def timers_owned_def handle_def)

lemma sent_keeps_wf: "ipc_wf (s\<lparr>sent := x\<rparr>) = ipc_wf s" "timers_owned (s\<lparr>sent := x\<rparr>) = timers_owned s"
  by (simp_all add: ipc_wf_def timers_owned_def)

lemma createPromise_keeps_wf:
  assumes wf: "ipc_wf s" and o: "timers_owned s" and fresh: "\<not> has_key (promises s) n"
  shows "ipc_wf (createPromise s n timeout) \<and> timers_owned (createPromise s n timeout)"
proof -
  have nt: "RequestTimer n \<notin> set (timers s)"
    using wf fresh unfolding ipc_wf_def has_key_def by auto
  have "ipc_wf (createPromise s n timeout)"
    using wf nt unfolding ipc_wf_def
    by (auto simp: createPromise_def Let_def distinct_update update_conv' split: option.splits)
  moreover have "timers_owned (createPromise s n timeout)"
    using o unfolding timers_owned_def
    by (auto simp: createPromise_def Let_def split: option.splits dest!: in_update_cases)
  ultimately show ?thesis by simp
qed

lemma request_keeps_wf:
  assumes wf: "ipc_wf s" and o: "timers_owned s" and fresh: "\<not> has_key (promises s) n"
  shows "ipc_wf (snd (request s n h d timeout)) \<and> timers_owned (snd (request s n h d timeout))"
proof (cases "send s (HandlerRequest n h d)")
  case (Some e)
  then show ?thesis using wf o by (simp add: request_def do_send_def sent_keeps_wf)
next
  case None
  let ?s1 = "s\<lparr>sent := sent s @ [HandlerRequest n h d]\<rparr>"
  have "ipc_wf ?s1" "timers_owned ?s1" "\<not> has_key (promises ?s1) n"
    using wf o fresh by (simp_all add: sent_keeps_wf)
  then show ?thesis
    using createPromise_keeps_wf [of ?s1 n timeout] by (simp add: request_def do_send_def None)
qed

lemma requestAll_keeps_wf:
  assumes wf: "ipc_wf s" and o: "timers_owned s"
  shows "ipc_wf (snd (requestAll s n h d timeout)) \<and> timers_owned (snd (requestAll s n h d timeout))"
proof -
  have "ipc_wf (snd (requestAll s n h d timeout))"
    using wf unfolding ipc_wf_def
    by (auto simp: requestAll_def Let_def do_send_def distinct_update
        split: option.splits promise_state.splits)
  moreover have "timers_owned (snd (requestAll s n h d timeout))"
    using o unfolding timers_owned_def
    by (auto simp: requestAll_def Let_def do_send_def split: option.splits promise_state.splits
        dest!: in_update_cases)
  ultimately show ?thesis by simp
qed

lemma events_keep_wf:
  "ipc_wf s \<Longrightarrow> timers_owned s \<Longrightarrow> ipc_wf (ipc_run s evs) \<and> timers_owned (ipc_run s evs)"
proof (induction evs arbitrary: s)
  case Nil
  then show ?case by (simp add: ipc_run_def)
next
  case (Cons ev evs)
  then show ?case by (simp add: ipc_run_Cons ipc_step_wf ipc_step_owned)
qed

end
